theory Spec2Isabelle
  imports Complex_Main "HOL-Library.Sublist" "HOL-Library.Log_Nat"
begin

section \<open>Strings as the source uses them\<close>

text \<open>
  A JavaScript string is modelled as a \<open>string\<close> whose characters are its code units
  (all below 256). The helpers below are the string methods and the regular expressions
  the source calls; each regular expression is written out as the scan it performs
  (leftmost match, then on from the end of the match).
\<close>

definition is_ws :: "char \<Rightarrow> bool" where
  \<comment> \<open>the class \<open>\s\<close>, also what \<open>trim\<close> removes: TAB, LF, VT, FF, CR, space, NBSP\<close>
  "is_ws c = (c \<in> set [CHR 0x09, CHR 0x0A, CHR 0x0B, CHR 0x0C, CHR 0x0D, CHR 0x20, CHR 0xA0])"

definition is_line_terminator :: "char \<Rightarrow> bool" where
  \<comment> \<open>what \<open>.\<close> does not match (and where \<open>^\<close> matches under the \<open>m\<close> flag): LF and CR\<close>
  "is_line_terminator c = (c = CHR 0x0A \<or> c = CHR 0x0D)"

definition is_digit :: "char \<Rightarrow> bool" where
  "is_digit c = (c \<in> set ''0123456789'')"

definition is_alnum_us :: "char \<Rightarrow> bool" where
  \<comment> \<open>the class \<open>\w\<close>, that is \<open>[A-Za-z0-9_]\<close>\<close>
  "is_alnum_us c = (c \<in> set ''abcdefghijklmnopqrstuvwxyzABCDEFGHIJKLMNOPQRSTUVWXYZ0123456789_'')"

definition to_lower :: "char \<Rightarrow> char" where
  "to_lower c = (case map_of (zip ''ABCDEFGHIJKLMNOPQRSTUVWXYZ'' ''abcdefghijklmnopqrstuvwxyz'') c of
                   Some l \<Rightarrow> l | None \<Rightarrow> c)"

definition trim :: "string \<Rightarrow> string" where
  "trim s = rev (dropWhile is_ws (rev (dropWhile is_ws s)))"

fun starts_with :: "string \<Rightarrow> string \<Rightarrow> bool" where
  \<comment> \<open>\<open>starts_with p s\<close>: the literal \<open>p\<close> matches at the head of \<open>s\<close>\<close>
  "starts_with [] s = True"
| "starts_with (p # ps) [] = False"
| "starts_with (p # ps) (c # cs) = (p = c \<and> starts_with ps cs)"

definition ends_with :: "string \<Rightarrow> string \<Rightarrow> bool" where
  "ends_with p s = starts_with (rev p) (rev s)"

definition starts_with_ci :: "string \<Rightarrow> string \<Rightarrow> bool" where
  \<comment> \<open>a lower-case literal matched under the \<open>i\<close> flag\<close>
  "starts_with_ci p s = starts_with p (map to_lower (take (length p) s))"

fun find_match :: "(string \<Rightarrow> nat option) \<Rightarrow> string \<Rightarrow> (string \<times> string) option" where
  \<comment> \<open>the leftmost position where the matcher succeeds: the text before it and the text
      after the match (the matcher returns the length it matched)\<close>
  "find_match m [] = (case m [] of Some n \<Rightarrow> Some ([], []) | None \<Rightarrow> None)"
| "find_match m (c # cs) =
     (case m (c # cs) of
        Some n \<Rightarrow> Some ([], drop n (c # cs))
      | None \<Rightarrow> (case find_match m cs of
                   Some (pre, post) \<Rightarrow> Some (c # pre, post)
                 | None \<Rightarrow> None))"

definition lit :: "string \<Rightarrow> string \<Rightarrow> nat option" where
  "lit p s = (if starts_with p s then Some (length p) else None)"

definition lit_ci :: "string \<Rightarrow> string \<Rightarrow> nat option" where
  "lit_ci p s = (if starts_with_ci p s then Some (length p) else None)"

definition alt :: "(string \<Rightarrow> nat option) \<Rightarrow> (string \<Rightarrow> nat option) \<Rightarrow> string \<Rightarrow> nat option" where
  \<comment> \<open>the alternation \<open>a|b\<close>\<close>
  "alt a b s = (case a s of Some n \<Rightarrow> Some n | None \<Rightarrow> b s)"

fun replace_all :: "string \<Rightarrow> string \<Rightarrow> string \<Rightarrow> string" where
  \<comment> \<open>\<open>s.replace(/p/g, r)\<close> for a non-empty literal \<open>p\<close>\<close>
  "replace_all p r [] = []"
| "replace_all p r (c # cs) =
     (if starts_with p (c # cs) then r @ replace_all p r (drop (length p - 1) cs)
      else c # replace_all p r cs)"

lemma length_dropWhile_less [termination_simp]:
  "length (dropWhile P xs) - n < Suc (length xs)"
  using length_dropWhile_le [of P xs] by simp

lemma length_dropWhile_less0 [termination_simp]:
  "length (dropWhile P xs) < Suc (length xs)"
  using length_dropWhile_le [of P xs] by simp

lemma length_dropWhile_drop_less [termination_simp]:
  "length (dropWhile P (drop k xs)) - n < Suc (length xs)"
  using length_dropWhile_le [of P "drop k xs"] by simp

fun strip_tags :: "string \<Rightarrow> string" where
  \<comment> \<open>\<open>s.replace(/<[^>]*>/g, '')\<close>\<close>
  "strip_tags [] = []"
| "strip_tags (c # cs) =
     (if c = CHR ''<'' \<and> CHR ''>'' \<in> set cs
      then strip_tags (drop 1 (dropWhile (\<lambda>x. x \<noteq> CHR ''>'') cs))
      else c # strip_tags cs)"

fun collapse_ws :: "string \<Rightarrow> string" where
  \<comment> \<open>\<open>s.replace(/\s+/g, ' ')\<close>\<close>
  "collapse_ws [] = []"
| "collapse_ws (c # cs) =
     (if is_ws c then CHR '' '' # collapse_ws (dropWhile is_ws cs) else c # collapse_ws cs)"

fun split_on :: "char \<Rightarrow> string \<Rightarrow> string list" where
  \<comment> \<open>\<open>s.split(d)\<close> for a one-character separator\<close>
  "split_on d [] = [[]]"
| "split_on d (c # cs) =
     (if c = d then [] # split_on d cs
      else (case split_on d cs of r # rs \<Rightarrow> (c # r) # rs | [] \<Rightarrow> [[c]]))"

fun join :: "string \<Rightarrow> string list \<Rightarrow> string" where
  "join sep [] = []"
| "join sep [x] = x"
| "join sep (x # y # ys) = x @ sep @ join sep (y # ys)"


lemma find_match_length:
  "find_match m s = Some (pre, post) \<Longrightarrow> length post \<le> length s"
  by (induction s arbitrary: pre) (auto split: option.splits)

lemma find_match_shorter:
  assumes "find_match m s = Some (pre, post)"
    and "\<And>t n. m t = Some n \<Longrightarrow> 0 < n \<and> n \<le> length t"
  shows "length post < length s"
  using assms(1)
proof (induction s arbitrary: pre)
  case Nil
  then show ?case using assms(2) [of "[]"] by (auto split: option.splits)
next
  case (Cons c cs)
  show ?case
  proof (cases "m (c # cs)")
    case None
    with Cons show ?thesis by (fastforce split: option.splits)
  next
    case (Some n)
    with Cons.prems assms(2) [of "c # cs" n] show ?thesis by auto
  qed
qed

lemma lit_pos: "p \<noteq> [] \<Longrightarrow> lit p t = Some n \<Longrightarrow> 0 < n \<and> n \<le> length t"
proof (induction p t arbitrary: n rule: starts_with.induct)
  case (3 p ps c cs)
  then show ?case by (cases ps) (auto simp: lit_def split: if_splits)
qed (auto simp: lit_def split: if_splits)

lemma starts_with_length: "starts_with p s \<Longrightarrow> length p \<le> length s"
  by (induction p s rule: starts_with.induct) auto

lemma lit_ci_pos: "p \<noteq> [] \<Longrightarrow> lit_ci p t = Some n \<Longrightarrow> 0 < n \<and> n \<le> length t"
  by (auto simp: lit_ci_def starts_with_ci_def split: if_splits dest!: starts_with_length)

lemma alt_pos:
  "alt a b t = Some n \<Longrightarrow> (\<And>k. a t = Some k \<Longrightarrow> 0 < k \<and> k \<le> length t)
     \<Longrightarrow> (\<And>k. b t = Some k \<Longrightarrow> 0 < k \<and> k \<le> length t) \<Longrightarrow> 0 < n \<and> n \<le> length t"
  by (auto simp: alt_def split: option.splits)

section \<open>Table Formatter\<close>

subsection \<open>convertHtmlTableToMarkdown\<close>

definition decode_cell :: "string \<Rightarrow> string" where
  \<comment> \<open>the chain of replacements applied to one trimmed cell\<close>
  "decode_cell cellContent =
     trim (collapse_ws
       (replace_all ''&#39;'' [CHR 0x27]
       (replace_all ''&quot;'' [CHR 0x22]
       (replace_all ''&gt;'' ''>''
       (replace_all ''&lt;'' ''<''
       (replace_all ''&amp;'' ''&''
       (replace_all ''&nbsp;'' '' '' cellContent)))))))"

function scan_cells :: "string \<Rightarrow> string list" where
  \<comment> \<open>the inner loop over \<open>cellRegex = /<(?:th|td)>([\s\S]*?)<\/(?:th|td)>/gi\<close>\<close>
  "scan_cells rowContent =
     (case find_match (alt (lit_ci ''<th>'') (lit_ci ''<td>'')) rowContent of
        None \<Rightarrow> []
      | Some (pre, opened) \<Rightarrow>
          (case find_match (alt (lit_ci ''</th>'') (lit_ci ''</td>'')) opened of
             None \<Rightarrow> []
           | Some (cell, rest) \<Rightarrow> decode_cell (trim cell) # scan_cells rest))"
  by pat_completeness auto
termination
proof (relation "measure length", goal_cases)
  case 1
  show ?case by simp
next
  case (2 rowContent x2 pre opened x2a cell rest)
  have "length opened \<le> length rowContent"
    using 2(1,2) by (auto dest: find_match_length)
  moreover have "length rest < length opened"
    using 2(3,4) by (auto elim!: find_match_shorter alt_pos dest: lit_ci_pos [rotated])
  ultimately show ?case by simp
qed

declare scan_cells.simps [simp del]

function scan_rows :: "string \<Rightarrow> string list list" where
  \<comment> \<open>the outer loop over \<open>rowRegex = /<tr>([\s\S]*?)<\/tr>/gi\<close>; a row without cells is
      not pushed\<close>
  "scan_rows html =
     (case find_match (lit_ci ''<tr>'') html of
        None \<Rightarrow> []
      | Some (pre, opened) \<Rightarrow>
          (case find_match (lit_ci ''</tr>'') opened of
             None \<Rightarrow> []
           | Some (rowContent, rest) \<Rightarrow>
               (let cells = scan_cells rowContent
                in (if length cells > 0 then [cells] else []) @ scan_rows rest)))"
  by pat_completeness auto
termination
proof (relation "measure length", goal_cases)
  case 1
  show ?case by simp
next
  case (2 html x2 pre opened x2a rowContent rest cells)
  have "length opened \<le> length html"
    using 2(1,2) by (auto dest: find_match_length)
  moreover have "length rest < length opened"
    using 2(3,4) by (auto elim!: find_match_shorter dest: lit_ci_pos [rotated])
  ultimately show ?case by simp
qed

declare scan_rows.simps [simp del]

definition markdown_row :: "string list \<Rightarrow> string" where
  "markdown_row row = ''| '' @ join '' | '' row @ '' |''"

definition convertHtmlTableToMarkdown :: "string \<Rightarrow> string" where
  "convertHtmlTableToMarkdown htmlTableContent =
     (let rows = scan_rows htmlTableContent
      in if length rows = 0 then []
         else
           (let markdownRows = map markdown_row rows;
                markdownRows' =
                  (if length rows \<ge> 2
                   then take 1 markdownRows @ [markdown_row (map (\<lambda>_. ''---'') (hd rows))]
                        @ drop 1 markdownRows
                   else markdownRows)
            in join [CHR 0x0A] markdownRows'))"


subsection \<open>Visual primitives\<close>

text \<open>
  The objects the walker emits, with the fields that carry meaning: the literal prefix of
  the \<open>id\<close> (its random suffix, the seeds and the version nonces are left out), position,
  size, and for a text its content, font size and stroke colour. Coordinates are
  JavaScript numbers; they are modelled as exact rationals. \<open>GraphEl\<close> is an element
  returned by the diagram converter, after positioning.
\<close>

datatype element =
    TextEl (eid: string) (ex: rat) (ey: rat) (ewidth: rat) (eheight: rat)
           (etext: string) (efontSize: rat) (estrokeColor: string)
  | ImageEl (eid: string) (ex: rat) (ey: rat) (ewidth: rat) (eheight: rat) (edataURL: string)
  | LineEl (eid: string) (ex: rat) (ey: rat) (ewidth: rat) (eheight: rat)
  | RectangleEl (eid: string) (ex: rat) (ey: rat) (ewidth: rat) (eheight: rat)
                (ebackgroundColor: string)
  | GraphEl (eid: string) (ex: rat) (ey: rat) (gheight: "rat option")

fun etype :: "element \<Rightarrow> string" where
  "etype (TextEl i x y w h t f c) = ''text''"
| "etype (ImageEl i x y w h u) = ''image''"
| "etype (LineEl i x y w h) = ''line''"
| "etype (RectangleEl i x y w h b) = ''rectangle''"
| "etype (GraphEl i x y h) = ''graph''"

subsection \<open>JavaScript numbers\<close>

text \<open>
  A JavaScript number is an IEEE 754 double. The model holds the rational a double
  denotes, and \<open>to_double\<close> rounds a rational to the nearest double, ties to the even
  significand of 53 bits, as each arithmetic operation of the language does with its
  exact result: \<open>x * y\<close> is \<open>dmul x y\<close> and \<open>x / y\<close> is \<open>ddiv x y\<close>. The magnitudes of the table
  code stay far inside the normal range, so subnormal numbers, overflow and the
  division by zero are left out.
\<close>

definition pow2 :: "int \<Rightarrow> rat" where
  "pow2 k = (if 0 \<le> k then 2 ^ nat k else 1 / 2 ^ nat (- k))"

definition double_exponent :: "rat \<Rightarrow> int" where
  \<comment> \<open>for \<open>0 < x\<close>, the exponent \<open>e\<close> with \<open>2 ^ e \<le> x < 2 ^ (e + 1)\<close>\<close>
  "double_exponent x =
     (if 1 \<le> x then int (floorlog 2 (nat \<lfloor>x\<rfloor>)) - 1
      else
        (let k = int (floorlog 2 (nat \<lfloor>1 / x\<rfloor>)) - 1
         in if x * pow2 k = 1 then - k else - k - 1))"

definition round_half_even :: "rat \<Rightarrow> int" where
  "round_half_even q =
     (let f = \<lfloor>q\<rfloor>;
          r = q - of_int f
      in if r < 1 / 2 then f
         else if 1 / 2 < r then f + 1
         else if even f then f else f + 1)"

definition to_double :: "rat \<Rightarrow> rat" where
  "to_double x =
     (if x = 0 then 0
      else
        (let a = \<bar>x\<bar>;
             ulp = pow2 (double_exponent a - 52)
         in sgn x * (of_int (round_half_even (a / ulp)) * ulp)))"

definition dmul :: "rat \<Rightarrow> rat \<Rightarrow> rat" where
  "dmul x y = to_double (x * y)"

definition ddiv :: "rat \<Rightarrow> rat \<Rightarrow> rat" where
  "ddiv x y = to_double (x / y)"

subsection \<open>createVisualTableElements\<close>

text \<open>
  The widths and heights are JavaScript numbers. The scale factor of the second pass
  and the widths it scales are rounded as doubles: the rounding decides the result of
  \<open>Math.floor\<close> there (four columns of 589 are scaled to 349, where the exact quotient
  gives 350). The products with 0.8, 0.6, 1.25 and 1.2 are computed exactly. With the
  font sizes 20 and 16 this gives \<open>Math.ceil\<close> in \<open>getTextWidth\<close> the integer the doubles
  give for every cell below 36 characters, and a width above \<open>maxColWidth\<close> as the doubles
  do for a longer one; it gives \<open>Math.floor\<close> in \<open>wrapText\<close> the integer the doubles give
  for every width from \<open>minColWidth\<close> to \<open>maxColWidth\<close>; the row heights are multiples of
  5, which are doubles. The height of a text, \<open>fontSize * 1.2 * lineCount\<close>, is carried as
  the exact product; no layout decision reads it. The array \<open>colWidths\<close> has \<open>numCols\<close>
  entries throughout, so \<open>numCols\<close> is read as its length where the rows are laid out.
\<close>

definition cleanCellContent :: "string \<Rightarrow> string" where
  "cleanCellContent content =
     trim (replace_all ''&amp;'' ''&''
       (replace_all ''&#39;'' [CHR 0x27]
       (replace_all ''&quot;'' [CHR 0x22]
       (replace_all ''&gt;'' ''>''
       (replace_all ''&lt;'' ''<''
       (strip_tags content))))))"

function split_plain :: "string \<Rightarrow> string \<Rightarrow> string list" where
  \<comment> \<open>\<open>line.split(/\s{2,}|\t|,/)\<close>; the first argument is the piece being read\<close>
  "split_plain cur [] = [cur]"
| "split_plain cur (c # cs) =
     (if is_ws c \<and> (case cs of d # _ \<Rightarrow> is_ws d | [] \<Rightarrow> False)
      then cur # split_plain [] (dropWhile is_ws cs)
      else if c = CHR 0x09 \<or> c = CHR '','' then cur # split_plain [] cs
      else split_plain (cur @ [c]) cs)"
  by pat_completeness auto
termination
  by (relation "measure (\<lambda>(cur, s). length s)") (auto simp: length_dropWhile_less0)

definition is_separator_cell :: "string \<Rightarrow> bool" where
  \<comment> \<open>\<open>/^-+$/.test(cell)\<close>\<close>
  "is_separator_cell cell = (cell \<noteq> [] \<and> list_all (\<lambda>c. c = CHR ''-'') cell)"

definition table_lines :: "string \<Rightarrow> string list" where
  "table_lines tableMarkdown =
     filter (\<lambda>line. trim line \<noteq> []) (split_on (CHR 0x0A) (trim tableMarkdown))"

definition parse_rows :: "string \<Rightarrow> string list list" where
  \<comment> \<open>the row parsing of createVisualTableElements, for at least two lines\<close>
  "parse_rows tableMarkdown =
     (let lines = table_lines tableMarkdown
      in if CHR ''|'' \<in> set tableMarkdown
         then
           (let rows = map (\<lambda>line. map cleanCellContent (butlast (tl (split_on (CHR ''|'') line)))) lines
            in if length rows > 1 \<and> list_all is_separator_cell (rows ! 1)
               then take 1 rows @ drop 2 rows
               else rows)
         else
           map (\<lambda>line. map cleanCellContent (filter (\<lambda>cell. trim cell \<noteq> []) (split_plain [] line)))
             lines)"

fun wrap_loop :: "int \<Rightarrow> string list \<Rightarrow> string list \<Rightarrow> string \<Rightarrow> string list \<times> string" where
  \<comment> \<open>the loop of wrapText over the words, with \<open>lines\<close> and \<open>currentLine\<close> as state\<close>
  "wrap_loop maxCharsPerLine [] lines currentLine = (lines, currentLine)"
| "wrap_loop maxCharsPerLine (word # words) lines currentLine =
     (let testLine = (if currentLine \<noteq> [] then currentLine @ '' '' @ word else word)
      in if int (length testLine) \<le> maxCharsPerLine
         then wrap_loop maxCharsPerLine words lines testLine
         else if currentLine \<noteq> []
         then wrap_loop maxCharsPerLine words (lines @ [currentLine]) word
         else if int (length word) > maxCharsPerLine
         then wrap_loop maxCharsPerLine words
                (lines @ [take (nat maxCharsPerLine) word]) (drop (nat maxCharsPerLine) word)
         else wrap_loop maxCharsPerLine words lines word)"

definition wrapText :: "string \<Rightarrow> int \<Rightarrow> rat \<Rightarrow> string" where
  "wrapText text maxWidth fontSize =
     (if text = [] then []
      else
        (let avgCharWidth = fontSize * (6 / 10);
             margin = 20;
             availableWidth = of_int maxWidth - margin;
             maxCharsPerLine = \<lfloor>availableWidth / avgCharWidth\<rfloor>
         in if int (length text) \<le> maxCharsPerLine then text
            else
              (case wrap_loop maxCharsPerLine (split_on (CHR '' '') text) [] [] of
                 (lines, currentLine) \<Rightarrow>
                   join [CHR 0x0A] (if currentLine \<noteq> [] then lines @ [currentLine] else lines))))"

definition getTextWidth :: "string \<Rightarrow> rat \<Rightarrow> int" where
  "getTextWidth text fontSize =
     (if text = [] then 150
      else
        (let avgCharWidth = fontSize * (8 / 10);
             textWidth = of_nat (length text) * avgCharWidth;
             padding = max 50 (textWidth * (6 / 10))
         in \<lceil>textWidth + padding\<rceil>))"

definition rowFontSize :: "nat \<Rightarrow> rat" where
  \<comment> \<open>\<open>rowIndex === 0 ? 20 : 16\<close>\<close>
  "rowFontSize rowIndex = (if rowIndex = 0 then 20 else 16)"

definition maxColWidth :: int where "maxColWidth = 600"
definition minColWidth :: int where "minColWidth = 150"
definition maxTotalWidth :: int where "maxTotalWidth = 1400"

definition measure_cols :: "string list list \<Rightarrow> nat \<Rightarrow> int list" where
  \<comment> \<open>the minimum width needed for each column\<close>
  "measure_cols rows numCols =
     fold (\<lambda>(rowIndex, row) colWidths.
             fold (\<lambda>(colIndex, cell) colWidths.
                     if colIndex < numCols
                     then colWidths[colIndex :=
                            max (colWidths ! colIndex) (getTextWidth cell (rowFontSize rowIndex))]
                     else colWidths)
               (enumerate 0 row) colWidths)
       (enumerate 0 rows) (replicate numCols 0)"

definition clamp_cols :: "int list \<Rightarrow> int list" where
  \<comment> \<open>first pass: the individual column limits\<close>
  "clamp_cols colWidths = map (\<lambda>width. max minColWidth (min maxColWidth width)) colWidths"

definition scale_cols :: "int list \<Rightarrow> int list" where
  \<comment> \<open>second pass: scale down when the total exceeds the limit\<close>
  "scale_cols colWidths =
     (let totalWidth = sum_list colWidths
      in if totalWidth > maxTotalWidth
         then
           (let scaleFactor = ddiv (of_int maxTotalWidth) (of_int totalWidth)
            in map (\<lambda>width. max minColWidth \<lfloor>dmul (of_int width) scaleFactor\<rfloor>) colWidths)
         else colWidths)"

definition computeColWidths :: "string list list \<Rightarrow> int list" where
  "computeColWidths rows = scale_cols (clamp_cols (measure_cols rows (length (hd rows))))"

definition baseRowHeight :: rat where "baseRowHeight = 60"

definition computeRowHeight :: "int list \<Rightarrow> nat \<Rightarrow> string list \<Rightarrow> rat" where
  "computeRowHeight colWidths rowIndex row =
     fold (\<lambda>(colIndex, cell) maxRowHeight.
             if colIndex \<ge> length colWidths then maxRowHeight
             else
               (let fontSize = rowFontSize rowIndex;
                    wrappedText = wrapText cell (colWidths ! colIndex) fontSize;
                    lineCount = length (split_on (CHR 0x0A) wrappedText);
                    lineHeight = fontSize * (125 / 100);
                    contentHeight = of_nat lineCount * lineHeight + 20;
                    cellHeight = max baseRowHeight contentHeight
                in max maxRowHeight cellHeight))
       (enumerate 0 row) baseRowHeight"

fun cell_elements :: "int list \<Rightarrow> nat \<Rightarrow> rat \<Rightarrow> rat \<Rightarrow> rat \<Rightarrow> nat \<Rightarrow> string list \<Rightarrow> element list" where
  \<comment> \<open>the cells of one row, with \<open>currentX\<close> and the column index as state\<close>
  "cell_elements colWidths rowIndex y rowHeight currentX colIndex [] = []"
| "cell_elements colWidths rowIndex y rowHeight currentX colIndex (cell # cells) =
     (if colIndex \<ge> length colWidths
      then cell_elements colWidths rowIndex y rowHeight currentX (Suc colIndex) cells
      else
        (let colWidth = colWidths ! colIndex;
             x = currentX;
             fontSize = rowFontSize rowIndex;
             wrappedText = wrapText cell colWidth fontSize;
             lineCount = length (split_on (CHR 0x0A) wrappedText);
             textHeight = fontSize * (12 / 10) * of_nat lineCount
         in [RectangleEl ''table-cell-'' x y (of_int colWidth) rowHeight
               (if rowIndex = 0 then ''#f0f0f0'' else ''transparent''),
             TextEl ''table-text-'' (x + of_int colWidth / 2) (y + rowHeight / 2)
               (of_int colWidth - 20) textHeight wrappedText fontSize ''#1e1e1e'']
            @ cell_elements colWidths rowIndex y rowHeight (currentX + of_int colWidth)
                (Suc colIndex) cells))"

fun row_elements :: "int list \<Rightarrow> rat \<Rightarrow> nat \<Rightarrow> rat \<Rightarrow> string list list \<Rightarrow> element list" where
  \<comment> \<open>the rows in order, with \<open>cumulativeY\<close> and the row index as state\<close>
  "row_elements colWidths startX rowIndex cumulativeY [] = []"
| "row_elements colWidths startX rowIndex cumulativeY (row # rows) =
     (let rowHeight = computeRowHeight colWidths rowIndex row
      in cell_elements colWidths rowIndex cumulativeY rowHeight startX 0 row
         @ row_elements colWidths startX (Suc rowIndex) (cumulativeY + rowHeight) rows)"

definition createVisualTableElements :: "string \<Rightarrow> rat \<Rightarrow> rat \<Rightarrow> element list" where
  "createVisualTableElements tableMarkdown startX startY =
     (if length (table_lines tableMarkdown) < 2 then []
      else
        (let rows = parse_rows tableMarkdown
         in if length rows = 0 then []
            else row_elements (computeColWidths rows) startX 0 startY rows))"


section \<open>Diagram Preprocessor\<close>

subsection \<open>preprocessMermaidCode\<close>

definition br_tag :: "string \<Rightarrow> nat option" where
  \<comment> \<open>\<open>/<br\s*\/?>/i\<close> at the head of the text: the length matched\<close>
  "br_tag s =
     (if starts_with_ci ''<br'' s
      then
        (let r = dropWhile is_ws (drop 3 s);
             r' = (case r of c # t \<Rightarrow> if c = CHR ''/'' then t else r | [] \<Rightarrow> r)
         in (case r' of c # t \<Rightarrow> if c = CHR ''>'' then Some (length s - length t) else None
                      | [] \<Rightarrow> None))
      else None)"

lemma dropWhile_drop_length:
  "dropWhile P (drop k t) = r \<Longrightarrow> length r \<le> length t"
  using length_dropWhile_le [of P "drop k t"] by auto

lemma br_tag_pos: "br_tag t = Some n \<Longrightarrow> 0 < n \<and> n \<le> length t"
  by (auto simp: br_tag_def Let_def split: if_splits list.splits
      dest!: dropWhile_drop_length)

function replace_br :: "string \<Rightarrow> string" where
  \<comment> \<open>\<open>mermaidCode.replace(/<br\s*\/?>/gi, '\n')\<close>\<close>
  "replace_br s =
     (case find_match br_tag s of
        None \<Rightarrow> s
      | Some (pre, post) \<Rightarrow> pre @ [CHR 0x0A] @ replace_br post)"
  by pat_completeness auto
termination
  by (relation "measure length") (auto elim!: find_match_shorter dest: br_tag_pos)

declare replace_br.simps [simp del]

definition escapeContent :: "string \<Rightarrow> string" where
  "escapeContent content =
     trim (replace_all [CHR 0x27] ''&#39;''
       (replace_all [CHR 0x22] ''&quot;''
       (replace_all ''>'' ''&gt;''
       (replace_all ''<'' ''&lt;''
       (replace_all ''&'' ''&amp;'' content)))))"

definition isAlreadyQuoted :: "string \<Rightarrow> bool" where
  "isAlreadyQuoted content =
     (let trimmed = trim content
      in (starts_with [CHR 0x22] trimmed \<and> ends_with [CHR 0x22] trimmed) \<or>
         (starts_with [CHR 0x27] trimmed \<and> ends_with [CHR 0x27] trimmed))"

fun quote_scan :: "char option \<Rightarrow> char option \<Rightarrow> string \<Rightarrow> bool" where
  \<comment> \<open>the loop of isInsideQuotes: the previous character, \<open>quoteChar\<close> (\<open>None\<close> while
      outside quotes), and the characters still to read\<close>
  "quote_scan prev quoteChar [] = (quoteChar \<noteq> None)"
| "quote_scan prev quoteChar (c # cs) =
     (if (c = CHR 0x22 \<or> c = CHR 0x27) \<and> prev \<noteq> Some (CHR 0x5C)
      then
        (case quoteChar of
           None \<Rightarrow> quote_scan (Some c) (Some c) cs
         | Some q \<Rightarrow> if c = q then quote_scan (Some c) None cs
                     else quote_scan (Some c) quoteChar cs)
      else quote_scan (Some c) quoteChar cs)"

definition isInsideQuotes :: "string \<Rightarrow> nat \<Rightarrow> bool" where
  "isInsideQuotes text position = quote_scan None None (take position text)"

function bracket_scan ::
  "char \<Rightarrow> char \<Rightarrow> (string \<Rightarrow> string \<Rightarrow> nat \<Rightarrow> string) \<Rightarrow> nat \<Rightarrow> string \<Rightarrow> string" where
  \<comment> \<open>\<open>line.replace(/\o([^\c]+)\c/g, callback)\<close> for an opening character \<open>o\<close> and a closing
      character \<open>c\<close>: the callback receives the match, its content and its offset\<close>
  "bracket_scan opn cls callback offset [] = []"
| "bracket_scan opn cls callback offset (c # cs) =
     (let content = takeWhile (\<lambda>x. x \<noteq> cls) cs;
          rest = dropWhile (\<lambda>x. x \<noteq> cls) cs
      in if c = opn \<and> content \<noteq> [] \<and> rest \<noteq> []
         then callback (c # content @ [cls]) content offset
              @ bracket_scan opn cls callback (offset + length content + 2) (drop 1 rest)
         else c # bracket_scan opn cls callback (Suc offset) cs)"
  by pat_completeness auto
termination
  by (relation "measure (\<lambda>(opn, cls, callback, offset, s). length s)")
     (auto simp: length_dropWhile_less)

declare bracket_scan.simps [simp del]

definition is_simple_paren_content :: "string \<Rightarrow> bool" where
  \<comment> \<open>\<open>/^[\w\s\-_.,]+$/.test(content)\<close> and no quote character\<close>
  "is_simple_paren_content content =
     (content \<noteq> [] \<and> list_all (\<lambda>c. is_alnum_us c \<or> is_ws c \<or> c \<in> set ''-_.,'') content
      \<and> CHR 0x22 \<notin> set content \<and> CHR 0x27 \<notin> set content)"

definition quote_square :: "string \<Rightarrow> string" where
  "quote_square processedLine =
     bracket_scan (CHR ''['') (CHR '']'')
       (\<lambda>match content offset.
          if isInsideQuotes processedLine offset then match
          else if isAlreadyQuoted content then match
          else ''['' @ [CHR 0x22] @ escapeContent content @ [CHR 0x22] @ '']'')
       0 processedLine"

definition quote_paren :: "string \<Rightarrow> string" where
  "quote_paren processedLine =
     bracket_scan (CHR ''('') (CHR '')'')
       (\<lambda>match content offset.
          if isInsideQuotes processedLine offset then match
          else if isAlreadyQuoted content then match
          else if is_simple_paren_content content
          then ''('' @ [CHR 0x22] @ escapeContent content @ [CHR 0x22] @ '')''
          else match)
       0 processedLine"

definition quote_curly :: "string \<Rightarrow> string" where
  "quote_curly processedLine =
     bracket_scan (CHR ''{'') (CHR ''}'')
       (\<lambda>match content offset.
          if isInsideQuotes processedLine offset then match
          else if isAlreadyQuoted content then match
          else ''{'' @ [CHR 0x22] @ escapeContent content @ [CHR 0x22] @ ''}'')
       0 processedLine"

definition quote_pipe :: "string \<Rightarrow> string" where
  "quote_pipe processedLine =
     bracket_scan (CHR ''|'') (CHR ''|'')
       (\<lambda>match content offset.
          if isInsideQuotes processedLine offset then match
          else if isAlreadyQuoted content then match
          else ''|'' @ [CHR 0x22] @ escapeContent content @ [CHR 0x22] @ ''|'')
       0 processedLine"

definition process_line :: "string \<Rightarrow> string" where
  \<comment> \<open>the four replacements on one line, in the source's order\<close>
  "process_line line = quote_pipe (quote_curly (quote_paren (quote_square line)))"

definition preprocessMermaidCode :: "string \<Rightarrow> string" where
  "preprocessMermaidCode mermaidCode =
     join [CHR 0x0A] (map process_line (split_on (CHR 0x0A) (replace_br mermaidCode)))"

subsection \<open>processMermaidCode, the alternate normalizer\<close>

definition extract_code :: "string \<Rightarrow> string" where
  \<comment> \<open>step 1: \<open>input.match(/```(?:mermaid)?\s*([\s\S]*?)\s*```/)\<close>, then
      \<open>match[1].trim()\<close>, or \<open>input.trim()\<close> without a match. The match starts at the first
      fence and ends at the next one; trimming makes the split of the white space between
      the groups irrelevant\<close>
  "extract_code input =
     (case find_match (lit ''```'') input of
        None \<Rightarrow> trim input
      | Some (pre, opened) \<Rightarrow>
          (let body = (if starts_with ''mermaid'' opened then drop 7 opened else opened)
           in case find_match (lit ''```'') body of
                None \<Rightarrow> trim input
              | Some (code, post) \<Rightarrow> trim code))"

fun braces_to_brackets :: "string \<Rightarrow> string" where
  \<comment> \<open>step 2: \<open>code.replace(/\{([^}]*)\}/g, '[$1]')\<close>\<close>
  "braces_to_brackets [] = []"
| "braces_to_brackets (c # cs) =
     (if c = CHR ''{'' \<and> CHR ''}'' \<in> set cs
      then ''['' @ takeWhile (\<lambda>x. x \<noteq> CHR ''}'') cs @ '']''
           @ braces_to_brackets (drop 1 (dropWhile (\<lambda>x. x \<noteq> CHR ''}'') cs))
      else c # braces_to_brackets cs)"

definition is_label_char :: "char \<Rightarrow> bool" where
  \<comment> \<open>the class \<open>[^\]"']\<close>\<close>
  "is_label_char c = (c \<noteq> CHR '']'' \<and> c \<noteq> CHR 0x22 \<and> c \<noteq> CHR 0x27)"

fun quote_labels :: "string \<Rightarrow> string" where
  \<comment> \<open>step 3: \<open>code.replace(/(\[[^\]"']+?\])/g, ...)\<close>: the label trimmed and quoted\<close>
  "quote_labels [] = []"
| "quote_labels (c # cs) =
     (let inner = takeWhile is_label_char cs;
          rest = dropWhile is_label_char cs
      in if c = CHR ''['' \<and> inner \<noteq> [] \<and> starts_with '']'' rest
         then ''['' @ [CHR 0x22] @ trim inner @ [CHR 0x22] @ '']'' @ quote_labels (drop 1 rest)
         else c # quote_labels cs)"

definition is_id_char :: "char \<Rightarrow> bool" where
  \<comment> \<open>the class \<open>[^\s\[\]]\<close>\<close>
  "is_id_char c = (\<not> is_ws c \<and> c \<noteq> CHR ''['' \<and> c \<noteq> CHR '']'')"

definition safe_id_char :: "char \<Rightarrow> char" where
  \<comment> \<open>\<open>id.replace(/[^a-zA-Z0-9_]/g, "_")\<close>, on one character\<close>
  "safe_id_char c = (if is_alnum_us c then c else CHR ''_'')"

fun sanitize_ids :: "bool \<Rightarrow> string \<Rightarrow> string" where
  \<comment> \<open>step 4: \<open>code.replace(/^([^\s\[\]]+)\[/gm, ...)\<close>; the flag tells whether the
      position is the start of a line\<close>
  "sanitize_ids at_line_start [] = []"
| "sanitize_ids at_line_start (c # cs) =
     (let id = takeWhile is_id_char (c # cs);
          rest = dropWhile is_id_char (c # cs)
      in if at_line_start \<and> id \<noteq> [] \<and> starts_with ''['' rest
         then map safe_id_char id @ ''['' @ sanitize_ids False (drop 1 rest)
         else c # sanitize_ids (is_line_terminator c) cs)"

definition escape_label :: "string \<Rightarrow> string" where
  "escape_label label =
     replace_all [CHR 0x22] ''&quot;''
       (replace_all ''>'' ''&gt;''
       (replace_all ''<'' ''&lt;''
       (replace_all ''&'' ''&amp;'' label)))"

fun escape_labels :: "string \<Rightarrow> string" where
  \<comment> \<open>step 5: \<open>code.replace(/\["([^"]*)"\]/g, ...)\<close>\<close>
  "escape_labels [] = []"
| "escape_labels (c # cs) =
     (let label = takeWhile (\<lambda>x. x \<noteq> CHR 0x22) (drop 1 cs);
          rest = dropWhile (\<lambda>x. x \<noteq> CHR 0x22) (drop 1 cs)
      in if starts_with (''['' @ [CHR 0x22]) (c # cs) \<and> starts_with ([CHR 0x22] @ '']'') rest
         then ''['' @ [CHR 0x22] @ escape_label label @ [CHR 0x22] @ '']''
              @ escape_labels (drop 2 rest)
         else c # escape_labels cs)"

definition diagram_types :: "string list" where
  "diagram_types =
     [''flowchart'', ''graph'', ''sequenceDiagram'', ''classDiagram'', ''erDiagram'', ''gantt'',
      ''journey'']"

fun has_valid_start :: "bool \<Rightarrow> string \<Rightarrow> bool" where
  \<comment> \<open>step 6: \<open>/^(flowchart|graph|...)/m.test(code)\<close>\<close>
  "has_valid_start at_line_start [] = False"
| "has_valid_start at_line_start (c # cs) =
     ((at_line_start \<and> list_ex (\<lambda>k. starts_with k (c # cs)) diagram_types)
      \<or> has_valid_start (is_line_terminator c) cs)"

fun dedup_lines :: "string list \<Rightarrow> string list \<Rightarrow> string list" where
  \<comment> \<open>step 7: the filter over the lines, with the set \<open>seen\<close> as state\<close>
  "dedup_lines seen [] = []"
| "dedup_lines seen (line # lines) =
     (let trimmed = trim line
      in if trimmed \<in> set seen then dedup_lines seen lines
         else line # dedup_lines (trimmed # seen) lines)"

definition normalized_code :: "string \<Rightarrow> string" where
  \<comment> \<open>the value of \<open>code\<close> after steps 1 to 7\<close>
  "normalized_code input =
     (let code = extract_code input;
          code = braces_to_brackets code;
          code = quote_labels code;
          code = sanitize_ids True code;
          code = escape_labels code;
          code = (if \<not> has_valid_start True code then ''flowchart TD'' @ [CHR 0x0A] @ code else code)
      in join [CHR 0x0A] (dedup_lines [] (split_on (CHR 0x0A) code)))"

definition MAX_LINES :: nat where "MAX_LINES = 200"
definition MAX_CHARS :: nat where "MAX_CHARS = 5000"

definition processMermaidCode :: "string \<Rightarrow> string + string" where
  \<comment> \<open>\<open>Inl message\<close> is the thrown \<open>Error(message)\<close>\<close>
  "processMermaidCode input =
     (let code = normalized_code input
      in if length (split_on (CHR 0x0A) code) > MAX_LINES \<or> length code > MAX_CHARS
         then Inl ''Mermaid diagram too large or complex.''
         else Inr (trim code))"

section \<open>Text Segmenter\<close>

datatype part = TextPart (part_content: string) | LatexPart (part_content: string)

fun latex_body :: "string \<Rightarrow> (string \<times> string) option" where
  \<comment> \<open>\<open>(.*?)<\/latex>\<close> at the head of the text: the shortest run of characters other
      than line terminators that is followed by the closing tag, and the text after the tag\<close>
  "latex_body [] = None"
| "latex_body (c # cs) =
     (if starts_with ''</latex>'' (c # cs) then Some ([], drop 8 (c # cs))
      else if is_line_terminator c then None
      else (case latex_body cs of Some (body, rest) \<Rightarrow> Some (c # body, rest) | None \<Rightarrow> None))"

fun latex_exec :: "string \<Rightarrow> (string \<times> string \<times> string) option" where
  \<comment> \<open>one \<open>latexRegex.exec\<close> on the text from \<open>lastIndex\<close> on, for
      \<open>latexRegex = /<latex>(.*?)<\/latex>/g\<close>: the text before the match, the group
      \<open>match[1]\<close>, and the text after the match\<close>
  "latex_exec [] = None"
| "latex_exec (c # cs) =
     (case (if starts_with ''<latex>'' (c # cs) then latex_body (drop 7 (c # cs)) else None) of
        Some (body, rest) \<Rightarrow> Some ([], body, rest)
      | None \<Rightarrow>
          (case latex_exec cs of
             Some (pre, body, rest) \<Rightarrow> Some (c # pre, body, rest)
           | None \<Rightarrow> None))"

lemma latex_body_length: "latex_body s = Some (body, rest) \<Longrightarrow> length rest < length s"
  by (induction s arbitrary: body) (auto split: if_splits option.splits)

lemma latex_exec_length:
  "latex_exec s = Some (pre, body, rest) \<Longrightarrow> length rest < length s"
proof (induction s arbitrary: pre)
  case Nil
  then show ?case by simp
next
  case (Cons c cs)
  show ?case
  proof (cases "if starts_with ''<latex>'' (c # cs) then latex_body (drop 7 (c # cs)) else None")
    case None
    with Cons show ?thesis by (fastforce split: option.splits)
  next
    case (Some a)
    then have "latex_body (drop 7 (c # cs)) = Some (body, rest)"
      using Cons.prems by (auto split: if_splits)
    from latex_body_length [OF this] show ?thesis by simp
  qed
qed

function latex_parts :: "string \<Rightarrow> part list" where
  \<comment> \<open>the \<open>while ((match = latexRegex.exec(textContent)) !== null)\<close> loop and the
      remaining text after it; the argument is the text from \<open>lastIndex\<close> on\<close>
  "latex_parts s =
     (case latex_exec s of
        None \<Rightarrow> (if s \<noteq> [] then [TextPart s] else [])
      | Some (pre, body, rest) \<Rightarrow>
          (if pre \<noteq> [] then [TextPart pre] else [])
          @ [LatexPart (trim body)] @ latex_parts rest)"
  by pat_completeness auto
termination
  by (relation "measure length") (auto dest: latex_exec_length)

declare latex_parts.simps [simp del]

section \<open>Document Walker\<close>

subsection \<open>Document nodes and external collaborators\<close>

text \<open>
  The nodes of the Markdown tree. A table carries its rows, each a list of cells. A
  list item carries what the source reads of its parent (\<open>ordered\<close>, \<open>start\<close>) when the
  node has a \<open>parent\<close> field. \<open>Other\<close> is a node of any type the walker does not handle
  itself (\<open>strong\<close>, \<open>emphasis\<close>, \<open>blockquote\<close>, \<open>inlineCode\<close>, ...), with its optional
  \<open>value\<close> and \<open>children\<close>.
\<close>

datatype node =
    Heading int "node list"
  | Paragraph "node list"
  | Html string
  | Table "node list list"
  | ThematicBreak
  | MdList "node list"
  | ListItem "(bool \<times> nat option) option" "node list"
  | Text string
  | Other string "string option" "node list option"

record graph_element =
  g_id :: string
  g_x :: "rat option"
  g_y :: "rat option"
  g_height :: "rat option"

text \<open>
  The external collaborators, as functions: \<open>convertLatexToImage\<close> returns the data URL,
  or the empty string on any failure (it catches every exception itself); \<open>addFiles\<close>
  tells whether the host call returns (\<open>True\<close>) or throws; \<open>parseMermaid\<close> and
  \<open>graphToExcalidraw\<close> return \<open>Inl message\<close> when they throw.
\<close>

record 'g env =
  convertLatexToImage :: "string \<Rightarrow> string"
  addFiles :: "string \<Rightarrow> bool"
  parseMermaid :: "string \<Rightarrow> string + 'g"
  graphToExcalidraw :: "'g \<Rightarrow> string + graph_element list"

fun getText :: "node \<Rightarrow> string" where
  "getText (Heading d cs) = concat (map getText cs)"
| "getText (Paragraph cs) = concat (map getText cs)"
| "getText (Html v) = v"
| "getText (Table rows) = concat (map (\<lambda>row. concat (map getText row)) rows)"
| "getText ThematicBreak = []"
| "getText (MdList cs) = concat (map getText cs)"
| "getText (ListItem parent cs) = concat (map getText cs)"
| "getText (Text v) = v"
| "getText (Other t v cs) =
     (case v of
        Some s \<Rightarrow> if s \<noteq> [] then s
                  else (case cs of Some l \<Rightarrow> concat (map getText l) | None \<Rightarrow> [])
      | None \<Rightarrow> (case cs of Some l \<Rightarrow> concat (map getText l) | None \<Rightarrow> []))"

fun collectAllText :: "node \<Rightarrow> string" where
  "collectAllText (Text v) = v"
| "collectAllText (Heading d cs) = concat (map collectAllText cs)"
| "collectAllText (Paragraph cs) = concat (map collectAllText cs)"
| "collectAllText (Html v) = []"
| "collectAllText (Table rows) = concat (map (\<lambda>row. concat (map collectAllText row)) rows)"
| "collectAllText ThematicBreak = []"
| "collectAllText (MdList cs) = concat (map collectAllText cs)"
| "collectAllText (ListItem parent cs) = concat (map collectAllText cs)"
| "collectAllText (Other t v cs) =
     (case cs of Some l \<Rightarrow> concat (map collectAllText l) | None \<Rightarrow> [])"

subsection \<open>The branches of traverse\<close>

definition indent :: "rat \<Rightarrow> nat \<Rightarrow> rat" where
  \<comment> \<open>\<open>startX + depth * 20\<close>\<close>
  "indent startX depth = startX + of_nat depth * 20"

fun process_parts :: "'g env \<Rightarrow> rat \<Rightarrow> part list \<Rightarrow> rat \<Rightarrow> element list \<times> rat" where
  \<comment> \<open>the \<open>for (const part of parts)\<close> loop of the paragraph branch, at horizontal
      position \<open>x\<close>, with \<open>currentY\<close> as state\<close>
  "process_parts env x [] currentY = ([], currentY)"
| "process_parts env x (LatexPart content # parts) currentY =
     (let imageDataUrl = convertLatexToImage env content
      in if imageDataUrl \<noteq> []
         then
           (if addFiles env imageDataUrl
            then
              (case process_parts env x parts (currentY + 50) of
                 (els, y) \<Rightarrow> (ImageEl ''latex-inline-'' x currentY 200 40 imageDataUrl # els, y))
            else
              (case process_parts env x parts (currentY + 25) of
                 (els, y) \<Rightarrow>
                   (ImageEl ''latex-inline-'' x currentY 200 40 imageDataUrl
                    # TextEl ''latex-inline-error-'' x currentY 200 20
                        (''LaTeX Error: '' @ content) 14 ''#ff0000''
                    # els, y)))
         else
           (case process_parts env x parts (currentY + 25) of
              (els, y) \<Rightarrow>
                (TextEl ''latex-inline-error-'' x currentY 200 20
                   (''LaTeX: '' @ content) 14 ''#ff6b35'' # els, y)))"
| "process_parts env x (TextPart content # parts) currentY =
     (if trim content \<noteq> []
      then
        (case process_parts env x parts (currentY + 25) of
           (els, y) \<Rightarrow> (TextEl ''text-'' x currentY 400 20 content 14 ''#000000'' # els, y))
      else process_parts env x parts currentY)"

definition or_zero :: "rat option \<Rightarrow> rat" where
  \<comment> \<open>\<open>v || 0\<close>\<close>
  "or_zero v = (case v of Some r \<Rightarrow> r | None \<Rightarrow> 0)"

definition height_or_20 :: "rat option \<Rightarrow> rat" where
  \<comment> \<open>\<open>element.height || 20\<close>\<close>
  "height_or_20 v = (case v of Some h \<Rightarrow> if h = 0 then 20 else h | None \<Rightarrow> 20)"

definition mermaid_block :: "'g env \<Rightarrow> rat \<Rightarrow> nat \<Rightarrow> rat \<Rightarrow> string \<Rightarrow> element list \<times> rat" where
  \<comment> \<open>the diagram handling: the body of the first branch of the html dispatch, which the
      source repeats word for word under the first \<open><table>\<close> condition\<close>
  "mermaid_block env startX depth currentY htmlContent =
     (let mermaidCode = trim (take (length htmlContent - 10 - 9) (drop 9 htmlContent));
          processedMermaidCode = preprocessMermaidCode mermaidCode;
          failed = (\<lambda>message.
            ([TextEl ''mermaid-error-'' (indent startX depth) currentY 400 30
                (''Error rendering mermaid: '' @ message) 16 ''#ff0000''], currentY + 50))
      in case parseMermaid env processedMermaidCode of
           Inl message \<Rightarrow> failed message
         | Inr parsedGraph \<Rightarrow>
             (case graphToExcalidraw env parsedGraph of
                Inl message \<Rightarrow> failed message
              | Inr elements \<Rightarrow>
                  (let offsetX = indent startX depth; offsetY = currentY
                   in if length elements > 0
                      then
                        (let positionedElements =
                               map (\<lambda>element. GraphEl (g_id element)
                                      (or_zero (g_x element) + offsetX)
                                      (or_zero (g_y element) + offsetY) (g_height element))
                                 elements;
                             maxY = fold (\<lambda>element maxY.
                                      let elementBottom = ey element + height_or_20 (gheight element)
                                      in if elementBottom > maxY then elementBottom else maxY)
                                    positionedElements currentY
                         in (positionedElements, maxY + 50))
                      else
                        ([TextEl ''mermaid-empty-'' (indent startX depth) currentY 400 30
                            ''Mermaid diagram (no elements generated)'' 16 ''#007acc''],
                         currentY + 50))))"

definition latex_block :: "'g env \<Rightarrow> rat \<Rightarrow> nat \<Rightarrow> rat \<Rightarrow> string \<Rightarrow> element list \<times> rat" where
  "latex_block env startX depth currentY htmlContent =
     (let latexCode = trim (take (length htmlContent - 8 - 7) (drop 7 htmlContent));
          imageDataUrl = convertLatexToImage env latexCode
      in if imageDataUrl \<noteq> []
         then
           (if addFiles env imageDataUrl
            then ([ImageEl ''latex-'' (indent startX depth) currentY 400 60 imageDataUrl],
                  currentY + 80)
            else ([ImageEl ''latex-'' (indent startX depth) currentY 400 60 imageDataUrl,
                   TextEl ''latex-error-'' (indent startX depth) currentY 400 30
                     (''LaTeX Error: '' @ latexCode) 16 ''#ff0000''],
                  currentY + 50))
         else ([TextEl ''latex-error-'' (indent startX depth) currentY 400 30
                  (''LaTeX: '' @ latexCode) 16 ''#ff6b35''],
               currentY + 50))"

fun list_max :: "rat list \<Rightarrow> rat" where
  \<comment> \<open>\<open>Math.max(...xs)\<close>, called on non-empty lists only\<close>
  "list_max [] = 0"
| "list_max (x # xs) = fold max xs x"

fun list_min :: "rat list \<Rightarrow> rat" where
  \<comment> \<open>\<open>Math.min(...xs)\<close>, called on non-empty lists only\<close>
  "list_min [] = 0"
| "list_min (x # xs) = fold min xs x"

definition table_advance :: "element list \<Rightarrow> rat" where
  \<comment> \<open>what is added to \<open>currentY\<close> after a table\<close>
  "table_advance tableElements =
     (let textElements = filter (\<lambda>el. etype el = ''text'') tableElements;
          rectangleElements = filter (\<lambda>el. etype el = ''rectangle'') tableElements
      in if length textElements > 0 \<and> length rectangleElements > 0
         then
           (let maxY = list_max (map (\<lambda>el. ey el + eheight el) rectangleElements);
                minY = list_min (map ey rectangleElements);
                tableHeight = maxY - minY
            in tableHeight + 30)
         else 200)"

definition html_table_block :: "string \<Rightarrow> rat \<Rightarrow> nat \<Rightarrow> rat \<Rightarrow> string \<Rightarrow> element list \<times> rat" where
  \<comment> \<open>the HTML table handling, with the prefix of the fallback's id as parameter\<close>
  "html_table_block errorId startX depth currentY htmlTableContent =
     (let tableMarkdown = convertHtmlTableToMarkdown htmlTableContent
      in if trim tableMarkdown \<noteq> []
         then
           (let tableElements = createVisualTableElements tableMarkdown (indent startX depth) currentY
            in (tableElements, currentY + table_advance tableElements))
         else ([TextEl errorId (indent startX depth) currentY 400 30
                  ''Error: Could not parse HTML table'' 14 ''#ff0000''],
               currentY + 50))"

definition includes_str :: "string \<Rightarrow> string \<Rightarrow> bool" where
  \<comment> \<open>\<open>s.includes(p)\<close>\<close>
  "includes_str s p = (find_match (lit p) s \<noteq> None)"

definition traverse_html :: "'g env \<Rightarrow> rat \<Rightarrow> nat \<Rightarrow> rat \<Rightarrow> string \<Rightarrow> element list \<times> rat" where
  \<comment> \<open>the html branch: the chain of conditions in the source's order\<close>
  "traverse_html env startX depth currentY htmlContent =
     (if starts_with ''<mermaid>'' htmlContent \<and> ends_with ''</mermaid>'' htmlContent
      then mermaid_block env startX depth currentY htmlContent
      else if starts_with ''<latex>'' htmlContent \<and> ends_with ''</latex>'' htmlContent
      then latex_block env startX depth currentY htmlContent
      else if includes_str htmlContent ''<table>'' \<and> includes_str htmlContent ''</table>''
      then mermaid_block env startX depth currentY htmlContent
      else if includes_str htmlContent ''<table>'' \<and> includes_str htmlContent ''</table>''
      then html_table_block ''html-table-error-'' startX depth currentY htmlContent
      else
        (let cleanText = trim (strip_tags htmlContent)
         in if cleanText \<noteq> []
            then ([TextEl ''html-text-'' (indent startX depth) currentY 400 30 cleanText 14
                     ''#000000''], currentY + 30)
            else ([], currentY)))"

fun paragraph_children ::
  "'g env \<Rightarrow> rat \<Rightarrow> nat \<Rightarrow> node list \<Rightarrow> bool \<Rightarrow> rat \<Rightarrow> element list \<times> bool \<times> rat" where
  \<comment> \<open>the \<open>for (const child of node.children)\<close> loop of the paragraph branch, with
      \<open>hasSpecialContent\<close> and \<open>currentY\<close> as state; it returns \<open>paragraphElements\<close>\<close>
  "paragraph_children env startX depth [] hasSpecialContent currentY =
     ([], hasSpecialContent, currentY)"
| "paragraph_children env startX depth (child # children) hasSpecialContent currentY =
     (case child of
        Html htmlContent \<Rightarrow>
          (case traverse_html env startX depth currentY htmlContent of
             (childElements, y) \<Rightarrow>
               (case paragraph_children env startX depth children True y of
                  (els, has, y') \<Rightarrow> (childElements @ els, has, y')))
      | Text textContent \<Rightarrow>
          (let parts = latex_parts textContent
           in case process_parts env (indent startX depth) parts currentY of
                (partElements, y) \<Rightarrow>
                  (case paragraph_children env startX depth children
                          (if length parts > 0 then True else hasSpecialContent) y of
                     (els, has, y') \<Rightarrow> (partElements @ els, has, y')))
      | _ \<Rightarrow> paragraph_children env startX depth children hasSpecialContent currentY)"

definition traverse_paragraph :: "'g env \<Rightarrow> rat \<Rightarrow> nat \<Rightarrow> rat \<Rightarrow> node list \<Rightarrow> element list \<times> rat" where
  "traverse_paragraph env startX depth currentY children =
     (case paragraph_children env startX depth children False currentY of
        (paragraphElements, hasSpecialContent, y) \<Rightarrow>
          if hasSpecialContent then (paragraphElements, y)
          else
            (let fullText = collectAllText (Paragraph children)
             in if trim fullText \<noteq> []
                then ([TextEl ''paragraph-'' (indent startX depth) y 400 30 fullText 14
                         ''#000000''], y + 30)
                else ([], y)))"

definition traverse_table :: "rat \<Rightarrow> nat \<Rightarrow> rat \<Rightarrow> node list list \<Rightarrow> element list \<times> rat" where
  "traverse_table startX depth currentY rows =
     (let tableRows = map (\<lambda>row. map getText row) rows;
          tableMarkdown = join [CHR 0x0A] (map markdown_row tableRows);
          tableElements = createVisualTableElements tableMarkdown (indent startX depth) currentY
      in (tableElements, currentY + table_advance tableElements))"

fun table_block_index :: "string \<Rightarrow> nat option" where
  \<comment> \<open>\<open>text.match(/TABLE_BLOCK_(\d+)/)\<close> and \<open>parseInt\<close> of its group\<close>
  "table_block_index [] = None"
| "table_block_index (c # cs) =
     (let digits = takeWhile is_digit (drop 12 (c # cs))
      in if starts_with ''TABLE_BLOCK_'' (c # cs) \<and> digits \<noteq> []
         then Some (fold (\<lambda>d n. 10 * n + (of_char d - 48)) digits 0)
         else table_block_index cs)"

definition traverse_text :: "rat \<Rightarrow> string list \<Rightarrow> nat \<Rightarrow> rat \<Rightarrow> string \<Rightarrow> element list \<times> rat" where
  "traverse_text startX tableBlocks depth currentY text =
     (case table_block_index text of
        Some blockIndex \<Rightarrow>
          if blockIndex < length tableBlocks
          then html_table_block ''table-error-'' startX depth currentY (tableBlocks ! blockIndex)
          else ([], currentY)
      | None \<Rightarrow>
          ([TextEl ''text-'' (indent startX depth) currentY 300 30 text 14 ''#000000''],
           currentY + 30))"

function string_of_nat :: "nat \<Rightarrow> string" where
  \<comment> \<open>a number in a template literal\<close>
  "string_of_nat n =
     (if n < 10 then [char_of (48 + n)] else string_of_nat (n div 10) @ [char_of (48 + n mod 10)])"
  by pat_completeness auto
termination
  by (relation "measure id") auto

declare string_of_nat.simps [simp del]

definition bullet :: "(bool \<times> nat option) option \<Rightarrow> string" where
  \<comment> \<open>\<open>node.parent && node.parent.ordered ? `${node.parent.start || 1}. ` : '- '\<close>\<close>
  "bullet parent =
     (case parent of
        Some (ordered, start) \<Rightarrow>
          if ordered
          then string_of_nat (case start of Some n \<Rightarrow> if n = 0 then 1 else n | None \<Rightarrow> 1) @ ''. ''
          else ''- ''
      | None \<Rightarrow> ''- '')"

subsection \<open>traverse and the top-level driver\<close>

fun traverse ::
    "'g env \<Rightarrow> rat \<Rightarrow> string list \<Rightarrow> node \<Rightarrow> nat \<Rightarrow> rat \<Rightarrow> element list \<times> rat"
  and traverse_all ::
    "'g env \<Rightarrow> rat \<Rightarrow> string list \<Rightarrow> node list \<Rightarrow> nat \<Rightarrow> rat \<Rightarrow> element list \<times> rat"
  where
  \<comment> \<open>\<open>traverse env startX tableBlocks node depth currentY\<close> returns \<open>nodeElements\<close> and the
      new value of the shared \<open>currentY\<close>; \<open>traverse_all\<close> is a loop over children\<close>
  "traverse env startX tableBlocks (Heading d children) depth currentY =
     (let fontSize = max 12 (20 - of_int d * 2);
          text = getText (Heading d children)
      in ([TextEl ''heading-'' (indent startX depth) currentY 200 (fontSize + 10) text fontSize
             ''#000000''], currentY + (fontSize + 20)))"
| "traverse env startX tableBlocks (Paragraph children) depth currentY =
     traverse_paragraph env startX depth currentY children"
| "traverse env startX tableBlocks (Html htmlContent) depth currentY =
     traverse_html env startX depth currentY htmlContent"
| "traverse env startX tableBlocks (Table rows) depth currentY =
     traverse_table startX depth currentY rows"
| "traverse env startX tableBlocks ThematicBreak depth currentY =
     ([LineEl ''line-'' (indent startX depth) (currentY + 10) 300 0], currentY + 30)"
| "traverse env startX tableBlocks (MdList children) depth currentY =
     traverse_all env startX tableBlocks children (Suc depth) currentY"
| "traverse env startX tableBlocks (ListItem parent children) depth currentY =
     ([TextEl ''listitem-'' (indent startX depth) currentY 350 30
         (bullet parent @ getText (ListItem parent children)) 14 ''#000000''], currentY + 30)"
| "traverse env startX tableBlocks (Text text) depth currentY =
     traverse_text startX tableBlocks depth currentY text"
| "traverse env startX tableBlocks (Other t v children) depth currentY =
     (case children of
        Some l \<Rightarrow> traverse_all env startX tableBlocks l (Suc depth) currentY
      | None \<Rightarrow> ([], currentY))"
| "traverse_all env startX tableBlocks [] depth currentY = ([], currentY)"
| "traverse_all env startX tableBlocks (child # children) depth currentY =
     (case traverse env startX tableBlocks child depth currentY of
        (childElements, y) \<Rightarrow>
          (case traverse_all env startX tableBlocks children depth y of
             (els, y') \<Rightarrow> (childElements @ els, y')))"

definition convertMarkdownTreeToElements ::
  "'g env \<Rightarrow> node list \<Rightarrow> rat \<Rightarrow> rat \<Rightarrow> string list \<Rightarrow> element list" where
  \<comment> \<open>the loop over \<open>tree.children\<close> at depth 0, from \<open>currentY = startY\<close>\<close>
  "convertMarkdownTreeToElements env children startX startY tableBlocks =
     fst (traverse_all env startX tableBlocks children 0 startY)"

fun cursor_trace :: "'g env \<Rightarrow> rat \<Rightarrow> string list \<Rightarrow> node list \<Rightarrow> rat \<Rightarrow> rat list" where
  \<comment> \<open>the values of \<open>currentY\<close> read at the start of each top-level child\<close>
  "cursor_trace env startX tableBlocks [] currentY = []"
| "cursor_trace env startX tableBlocks (child # children) currentY =
     currentY # cursor_trace env startX tableBlocks children
                  (snd (traverse env startX tableBlocks child 0 currentY))"

section \<open>Verified properties\<close>

subsection \<open>Table Formatter\<close>

text \<open>
  The rounding at work: the double nearest to one tenth, and the scaling pass on four
  columns of 589, where the exact quotient \<open>589 * 1400 / 2356\<close> is the integer 350 and the
  product of the doubles lies just below it.
\<close>

lemma to_double_tenth: "to_double (1 / 10) = 3602879701896397 / 36028797018963968"
  by code_simp

lemma scale_cols_rounds_as_doubles:
  "scale_cols [589, 589, 589, 589] = [349, 349, 349, 349] \<and>
   \<lfloor>(589 :: rat) * (of_int maxTotalWidth / of_int (sum_list [589, 589, 589, 589]))\<rfloor> = 350"
proof -
  have "scale_cols [589, 589, 589, 589] = [349, 349, 349, 349]" by code_simp
  then show ?thesis by (simp add: maxTotalWidth_def)
qed

text \<open>
  The error of one rounding: a non-negative number grows by at most the factor
  \<open>1 + 2 ^ -53\<close>. Two roundings of the scaling pass cannot lift a width over the
  width it scales, nor the scaled sum to 1401.
\<close>

lemma pow2_pos: "0 < pow2 k"
  by (simp add: pow2_def)

lemma pow2_powi: "pow2 k = 2 powi k"
  by (simp add: pow2_def power_int_def power_one_over)

lemma pow2_shift: "pow2 (e - 52) / 2 = pow2 e / 2 ^ 53"
proof -
  have "pow2 (e - 52) = pow2 e / 2 ^ 52"
    unfolding pow2_powi by (simp add: power_int_diff)
  then show ?thesis by simp
qed

lemma double_exponent_le:
  assumes "0 < x"
  shows "pow2 (double_exponent x) \<le> x"
proof (cases "1 \<le> x")
  case True
  define n where "n = nat \<lfloor>x\<rfloor>"
  from True have f: "1 \<le> \<lfloor>x\<rfloor>" by simp
  then have n: "0 < n" by (simp add: n_def)
  have b: "2 ^ (floorlog 2 n - 1) \<le> n"
    using floorlog_bounds [OF n, of 2] by simp
  have fl: "0 < floorlog 2 n" using n by (simp add: floorlog_def)
  have "double_exponent x = int (floorlog 2 n - 1)"
    using True fl by (simp add: double_exponent_def n_def of_nat_diff)
  then have "pow2 (double_exponent x) = 2 ^ (floorlog 2 n - 1)"
    by (simp add: pow2_def)
  also have "\<dots> \<le> (of_nat n :: rat)"
    using b by (metis of_nat_le_iff of_nat_numeral of_nat_power)
  also have "\<dots> = of_int \<lfloor>x\<rfloor>" using f by (simp add: n_def)
  also have "\<dots> \<le> x" by simp
  finally show ?thesis .
next
  case False
  define m where "m = nat \<lfloor>1 / x\<rfloor>"
  define fl where "fl = floorlog 2 m"
  from False assms have "1 \<le> 1 / x" by simp
  then have f: "1 \<le> \<lfloor>1 / x\<rfloor>" by simp
  then have m: "0 < m" by (simp add: m_def)
  have b: "m < 2 ^ fl"
    using floorlog_bounds [OF m, of 2] by (simp add: fl_def)
  have flp: "0 < fl" using m by (simp add: floorlog_def fl_def)
  have k: "int fl - 1 = int (fl - 1)" using flp by (simp add: of_nat_diff)
  show ?thesis
  proof (cases "x * pow2 (int fl - 1) = 1")
    case True
    then have e: "double_exponent x = - int (fl - 1)"
      using False flp by (simp add: double_exponent_def Let_def m_def fl_def of_nat_diff)
    have "pow2 (- int (fl - 1)) * pow2 (int (fl - 1)) = 1"
      by (auto simp: pow2_def nat_diff_distrib)
    with True have "pow2 (- int (fl - 1)) = x"
      using pow2_pos [of "int (fl - 1)"] unfolding k
      by (metis mult_right_cancel less_irrefl)
    then show ?thesis unfolding e by simp
  next
    case ne: False
    then have e: "double_exponent x = - int fl"
      using False by (simp add: double_exponent_def Let_def m_def fl_def)
    have "1 / x < of_int (\<lfloor>1 / x\<rfloor> + 1)" by linarith
    also have "\<dots> = of_nat (m + 1)"
    proof -
      from f have "0 \<le> \<lfloor>1 / x\<rfloor>" by linarith
      then have "(of_nat m :: rat) = of_int \<lfloor>1 / x\<rfloor>" unfolding m_def by (rule of_nat_nat)
      then show ?thesis by simp
    qed
    also have "\<dots> \<le> (2 ^ fl :: rat)"
      using b by (metis Suc_eq_plus1 Suc_leI of_nat_le_iff of_nat_numeral of_nat_power)
    finally have "1 / x < 2 ^ fl" .
    then have "1 / 2 ^ fl < x" using assms by (simp add: field_simps)
    moreover have "pow2 (- int fl) = 1 / 2 ^ fl" by (simp add: pow2_def)
    ultimately show ?thesis unfolding e by simp
  qed
qed

lemma round_half_even_le: "of_int (round_half_even q) \<le> q + 1 / 2"
  unfolding round_half_even_def Let_def by (auto; linarith)

lemma round_half_even_nonneg: "0 \<le> q \<Longrightarrow> 0 \<le> round_half_even q"
  unfolding round_half_even_def Let_def by auto

lemma to_double_le:
  assumes "0 \<le> x"
  shows "to_double x \<le> x * (1 + 1 / 2 ^ 53)"
proof (cases "x = 0")
  case True
  then show ?thesis by (simp add: to_double_def)
next
  case False
  with assms have x: "0 < x" by simp
  define u where "u = pow2 (double_exponent x - 52)"
  have u: "0 < u" by (simp add: u_def pow2_pos)
  have "u / 2 = pow2 (double_exponent x) / 2 ^ 53" unfolding u_def by (rule pow2_shift)
  also have "\<dots> \<le> x / 2 ^ 53" using double_exponent_le [OF x] by (simp add: divide_right_mono)
  finally have h: "u / 2 \<le> x / 2 ^ 53" .
  have "to_double x = of_int (round_half_even (x / u)) * u"
    using x by (simp add: to_double_def Let_def u_def)
  also have "\<dots> \<le> (x / u + 1 / 2) * u"
    using round_half_even_le [of "x / u"] u by (simp add: mult_right_mono)
  also have "\<dots> = x + u / 2" using u by (simp add: field_simps)
  also have "\<dots> \<le> x + x / 2 ^ 53" using h by simp
  also have "\<dots> = x * (1 + 1 / 2 ^ 53)" by (simp add: field_simps)
  finally show ?thesis .
qed

lemma to_double_nonneg: "0 \<le> x \<Longrightarrow> 0 \<le> to_double x"
  using pow2_pos [of "double_exponent \<bar>x\<bar> - 52"]
  by (simp add: to_double_def Let_def round_half_even_nonneg)

lemma clamp_cols_range:
  "w \<in> set (clamp_cols ws) \<Longrightarrow> minColWidth \<le> w \<and> w \<le> maxColWidth"
  by (auto simp: clamp_cols_def minColWidth_def maxColWidth_def)

lemma double_eps_bound: "(1400 * (1 + 1 / 2 ^ 53) ^ 2 :: rat) < 1401"
  by (simp add: power2_eq_square)

lemma scaled_width_le:
  assumes "maxTotalWidth < t" and "0 \<le> w"
  shows "dmul (of_int w) (ddiv (of_int maxTotalWidth) (of_int t))
           \<le> of_int w * (of_int maxTotalWidth / of_int t * (1 + 1 / 2 ^ 53) ^ 2)"
proof -
  define q :: rat where "q = of_int maxTotalWidth / of_int t"
  define s where "s = ddiv (of_int maxTotalWidth) (of_int t)"
  from assms(1) have q: "0 \<le> q" by (simp add: q_def maxTotalWidth_def)
  have s0: "0 \<le> s" unfolding s_def ddiv_def using q by (simp add: to_double_nonneg q_def)
  have s1: "s \<le> q * (1 + 1 / 2 ^ 53)" unfolding s_def ddiv_def q_def using q
    by (simp only: to_double_le q_def)
  have w: "(0 :: rat) \<le> of_int w" using assms(2) by simp
  have "dmul (of_int w) s \<le> of_int w * s * (1 + 1 / 2 ^ 53)"
    unfolding dmul_def using w s0 by (intro to_double_le) simp
  also have "\<dots> \<le> of_int w * (q * (1 + 1 / 2 ^ 53)) * (1 + 1 / 2 ^ 53)"
    using s1 w by (intro mult_right_mono mult_left_mono) simp_all
  also have "\<dots> = of_int w * (q * (1 + 1 / 2 ^ 53) ^ 2)"
    by (simp add: power2_eq_square)
  finally show ?thesis unfolding s_def q_def .
qed

lemma scale_factor_le_one:
  assumes "maxTotalWidth < t"
  shows "(of_int maxTotalWidth / of_int t * (1 + 1 / 2 ^ 53) ^ 2 :: rat) \<le> 1"
proof -
  from assms have "maxTotalWidth + 1 \<le> t" by simp
  then have t: "(1401 :: rat) \<le> of_int t" unfolding maxTotalWidth_def by linarith
  have "(1400 * (1 + 1 / 2 ^ 53) ^ 2 :: rat) \<le> 1401" using double_eps_bound by simp
  with t have "(1400 * (1 + 1 / 2 ^ 53) ^ 2 :: rat) \<le> of_int t" by linarith
  moreover from t have "(0 :: rat) < of_int t" by linarith
  ultimately show ?thesis by (simp add: maxTotalWidth_def field_simps)
qed

lemma scaled_width_le_width:
  assumes "maxTotalWidth < t" and "0 \<le> w"
  shows "\<lfloor>dmul (of_int w) (ddiv (of_int maxTotalWidth) (of_int t))\<rfloor> \<le> w"
proof -
  have "dmul (of_int w) (ddiv (of_int maxTotalWidth) (of_int t))
          \<le> of_int w * (of_int maxTotalWidth / of_int t * (1 + 1 / 2 ^ 53) ^ 2)"
    using assms by (rule scaled_width_le)
  also have "\<dots> \<le> of_int w * 1"
    using scale_factor_le_one [OF assms(1)] assms(2) by (intro mult_left_mono) simp_all
  finally have "dmul (of_int w) (ddiv (of_int maxTotalWidth) (of_int t)) \<le> of_int w" by simp
  then show ?thesis by (simp add: floor_le_iff)
qed

lemma scale_cols_pointwise:
  assumes "\<forall>w\<in>set ws. minColWidth \<le> w"
  shows "list_all2 (\<lambda>v w. minColWidth \<le> v \<and> v \<le> w) (scale_cols ws) ws"
proof (cases "maxTotalWidth < sum_list ws")
  case False
  with assms show ?thesis by (simp add: scale_cols_def list_all2_same)
next
  case True
  have "minColWidth \<le> max minColWidth \<lfloor>dmul (of_int w) (ddiv (of_int maxTotalWidth) (of_int (sum_list ws)))\<rfloor>
        \<and> max minColWidth \<lfloor>dmul (of_int w) (ddiv (of_int maxTotalWidth) (of_int (sum_list ws)))\<rfloor> \<le> w"
    if "w \<in> set ws" for w
  proof -
    from that assms have w: "minColWidth \<le> w" by simp
    then have "0 \<le> w" by (simp add: minColWidth_def)
    from scaled_width_le_width [OF True this] w show ?thesis by simp
  qed
  then show ?thesis using True
    by (simp add: scale_cols_def Let_def list_all2_map1 list_all2_same)
qed

lemma scale_cols_range:
  assumes "\<forall>w\<in>set ws. minColWidth \<le> w \<and> w \<le> maxColWidth" and "v \<in> set (scale_cols ws)"
  shows "minColWidth \<le> v \<and> v \<le> maxColWidth"
proof -
  from assms(1) have "list_all2 (\<lambda>v w. minColWidth \<le> v \<and> v \<le> w) (scale_cols ws) ws"
    by (intro scale_cols_pointwise) simp
  then have l: "length (scale_cols ws) = length ws"
    and n: "\<forall>i<length ws. minColWidth \<le> scale_cols ws ! i \<and> scale_cols ws ! i \<le> ws ! i"
    by (simp_all add: list_all2_conv_all_nth)
  from assms(2) l obtain i where i: "i < length ws" and v: "v = scale_cols ws ! i"
    by (metis in_set_conv_nth)
  from i assms(1) have "ws ! i \<le> maxColWidth" by simp
  with n i v show ?thesis by fastforce
qed

lemma scale_cols_sum_le:
  assumes "\<forall>w\<in>set ws. minColWidth \<le> w"
  shows "sum_list (scale_cols ws) \<le> sum_list ws"
proof -
  have "list_all2 (\<lambda>v w. v \<le> w) (scale_cols ws) ws"
    using scale_cols_pointwise [OF assms] by (rule list_all2_mono) simp
  then show ?thesis by (induction rule: list_all2_induct) simp_all
qed

lemma sum_list_filter_le:
  fixes xs :: "int list"
  assumes "\<forall>w\<in>set xs. 0 \<le> w"
  shows "sum_list (filter P xs) \<le> sum_list xs"
  using assms by (induction xs) auto

lemma sum_filter_scaled:
  fixes g :: "int \<Rightarrow> rat"
  assumes "\<forall>w\<in>set ws. 0 \<le> w \<and> g w \<le> of_int w * c" and "0 \<le> c"
  shows "of_int (sum_list (filter (\<lambda>v. m < v) (map (\<lambda>w. max m \<lfloor>g w\<rfloor>) ws)))
           \<le> of_int (sum_list ws) * c"
  using assms(1)
proof (induction ws)
  case Nil
  then show ?case by simp
next
  case (Cons w ws)
  then have ih: "of_int (sum_list (filter (\<lambda>v. m < v) (map (\<lambda>w. max m \<lfloor>g w\<rfloor>) ws)))
                   \<le> of_int (sum_list ws) * c"
    by simp
  from Cons.prems have w: "0 \<le> w" and g: "g w \<le> of_int w * c" by simp_all
  have f: "of_int \<lfloor>g w\<rfloor> \<le> g w" by simp
  from w assms(2) have p: "0 \<le> of_int w * c" by simp
  show ?case
  proof (cases "m < \<lfloor>g w\<rfloor>")
    case True
    then have "(of_int (sum_list (filter (\<lambda>v. m < v) (map (\<lambda>w. max m \<lfloor>g w\<rfloor>) (w # ws)))) :: rat)
                 = of_int \<lfloor>g w\<rfloor> + of_int (sum_list (filter (\<lambda>v. m < v) (map (\<lambda>w. max m \<lfloor>g w\<rfloor>) ws)))"
      by simp
    also have "\<dots> \<le> of_int w * c + of_int (sum_list ws) * c"
      using ih g f by linarith
    also have "\<dots> = of_int (sum_list (w # ws)) * c" by (simp add: algebra_simps)
    finally show ?thesis .
  next
    case False
    then have "max m \<lfloor>g w\<rfloor> = m" by simp
    with ih p show ?thesis by (simp add: algebra_simps)
  qed
qed

lemma scale_cols_filter_sum:
  assumes "\<forall>w\<in>set ws. minColWidth \<le> w"
  shows "sum_list (filter (\<lambda>w. minColWidth < w) (scale_cols ws)) \<le> maxTotalWidth"
proof (cases "maxTotalWidth < sum_list ws")
  case False
  from assms have "\<forall>w\<in>set ws. 0 \<le> w" by (auto simp: minColWidth_def)
  then have "sum_list (filter (\<lambda>w. minColWidth < w) ws) \<le> sum_list ws"
    by (rule sum_list_filter_le)
  with False show ?thesis by (simp add: scale_cols_def)
next
  case True
  define t where "t = sum_list ws"
  define c :: rat where "c = of_int maxTotalWidth / of_int t * (1 + 1 / 2 ^ 53) ^ 2"
  define g where "g w = dmul (of_int w) (ddiv (of_int maxTotalWidth) (of_int t))" for w
  from True have t: "maxTotalWidth < t" by (simp add: t_def)
  then have tp: "(0 :: rat) < of_int t" by (simp add: maxTotalWidth_def)
  then have c: "0 \<le> c" by (simp add: c_def maxTotalWidth_def)
  have "\<forall>w\<in>set ws. 0 \<le> w \<and> g w \<le> of_int w * c"
  proof
    fix w assume "w \<in> set ws"
    with assms have "0 \<le> w" by (auto simp: minColWidth_def)
    with scaled_width_le [OF t this] show "0 \<le> w \<and> g w \<le> of_int w * c"
      by (simp add: g_def c_def)
  qed
  from sum_filter_scaled [OF this c, of minColWidth]
  have "(of_int (sum_list (filter (\<lambda>v. minColWidth < v) (scale_cols ws))) :: rat) \<le> of_int t * c"
    using True by (simp add: scale_cols_def Let_def g_def t_def)
  also have "\<dots> = 1400 * (1 + 1 / 2 ^ 53) ^ 2"
    using tp by (simp add: c_def maxTotalWidth_def)
  also have "\<dots> < 1401" by (rule double_eps_bound)
  finally have "sum_list (filter (\<lambda>v. minColWidth < v) (scale_cols ws)) < 1401"
    by (metis of_int_less_iff of_int_numeral)
  then show ?thesis by (simp add: maxTotalWidth_def)
qed

lemma sum_list_split_min:
  fixes xs :: "int list"
  assumes "\<forall>w\<in>set xs. m \<le> w"
  shows "sum_list xs = sum_list (filter (\<lambda>w. m < w) xs) + m * int (length (filter (\<lambda>w. w = m) xs))"
  using assms by (induction xs) (auto simp: algebra_simps)

definition ten_column_table :: string where
  "ten_column_table =
     ''| a | b | c | d | e | f | g | h | i | j |'' @ [CHR 0x0A] @
     ''| 1 | 2 | 3 | 4 | 5 | 6 | 7 | 8 | 9 | 0 |''"

definition mixed_width_rows :: "string list list" where
  "mixed_width_rows =
     [replicate 3 ''abcdefghijklmnopqrstuvwxyz0123'' @ [''n''], replicate 4 ''b'']"

text \<open>
  C3, as stated: every column width lies in \<open>[150, 600]\<close> and the widths sum to at most
  1400 after the scaling pass. The second half fails: the scaling pass never goes
  below the per-column minimum, so ten narrow columns end at \<open>10 * 150 = 1500\<close>.
\<close>

theorem column_sum_counterexample:
  "sum_list (computeColWidths (parse_rows ten_column_table)) = 1500 \<and>
   \<not> sum_list (computeColWidths (parse_rows ten_column_table)) \<le> maxTotalWidth"
proof -
  have "computeColWidths (parse_rows ten_column_table) =
          [150, 150, 150, 150, 150, 150, 150, 150, 150, 150]"
    unfolding ten_column_table_def by code_simp
  then show ?thesis by (simp add: maxTotalWidth_def)
qed

text \<open>
  C3, amended: for every grid, every computed column width lies in
  \<open>[minColWidth, maxColWidth]\<close>; the columns wider than \<open>minColWidth\<close> sum to at most
  \<open>maxTotalWidth\<close>, so the sum of all widths is at most \<open>maxTotalWidth\<close> plus \<open>minColWidth\<close>
  for each column held at the minimum; and the scaling pass never increases the sum
  the clamping pass left.
\<close>

theorem column_widths_bounded:
  "(\<forall>w\<in>set (computeColWidths rows). minColWidth \<le> w \<and> w \<le> maxColWidth) \<and>
   sum_list (filter (\<lambda>w. minColWidth < w) (computeColWidths rows)) \<le> maxTotalWidth \<and>
   sum_list (computeColWidths rows)
     \<le> maxTotalWidth
         + minColWidth * int (length (filter (\<lambda>w. w = minColWidth) (computeColWidths rows))) \<and>
   sum_list (computeColWidths rows)
     \<le> sum_list (clamp_cols (measure_cols rows (length (hd rows))))"
proof -
  define ws where "ws = clamp_cols (measure_cols rows (length (hd rows)))"
  have c: "\<forall>w\<in>set ws. minColWidth \<le> w \<and> w \<le> maxColWidth"
    unfolding ws_def using clamp_cols_range by blast
  then have m: "\<forall>w\<in>set ws. minColWidth \<le> w" by simp
  have r: "\<forall>w\<in>set (scale_cols ws). minColWidth \<le> w \<and> w \<le> maxColWidth"
    using scale_cols_range [OF c] by blast
  have f: "sum_list (filter (\<lambda>w. minColWidth < w) (scale_cols ws)) \<le> maxTotalWidth"
    using m by (rule scale_cols_filter_sum)
  have "sum_list (scale_cols ws)
          = sum_list (filter (\<lambda>w. minColWidth < w) (scale_cols ws))
            + minColWidth * int (length (filter (\<lambda>w. w = minColWidth) (scale_cols ws)))"
    using r by (intro sum_list_split_min) simp
  with f have t: "sum_list (scale_cols ws)
          \<le> maxTotalWidth
              + minColWidth * int (length (filter (\<lambda>w. w = minColWidth) (scale_cols ws)))"
    by simp
  have l: "sum_list (scale_cols ws) \<le> sum_list ws"
    using m by (rule scale_cols_sum_le)
  from r f t l show ?thesis unfolding computeColWidths_def ws_def by blast
qed

theorem column_widths_bounded_witness:
  "computeColWidths mixed_width_rows = [430, 430, 430, 150] \<and>
   list_all (\<lambda>w. minColWidth \<le> w \<and> w \<le> maxColWidth) (computeColWidths mixed_width_rows) \<and>
   sum_list (filter (\<lambda>w. minColWidth < w) (computeColWidths mixed_width_rows)) = 1290 \<and>
   sum_list (filter (\<lambda>w. minColWidth < w) (computeColWidths mixed_width_rows)) \<le> maxTotalWidth \<and>
   length (filter (\<lambda>w. w = minColWidth) (computeColWidths mixed_width_rows)) = 1 \<and>
   sum_list (computeColWidths mixed_width_rows) = 1440 \<and>
   sum_list (clamp_cols (measure_cols mixed_width_rows (length (hd mixed_width_rows)))) = 1950"
proof -
  have e: "computeColWidths mixed_width_rows = [430, 430, 430, 150]"
    unfolding mixed_width_rows_def by code_simp
  have s: "sum_list (clamp_cols (measure_cols mixed_width_rows (length (hd mixed_width_rows)))) = 1950"
    unfolding mixed_width_rows_def by code_simp
  note t = column_widths_bounded [of mixed_width_rows]
  from t have "\<forall>w\<in>set (computeColWidths mixed_width_rows). minColWidth \<le> w \<and> w \<le> maxColWidth"
    by (rule conjunct1)
  then have r: "list_all (\<lambda>w. minColWidth \<le> w \<and> w \<le> maxColWidth) (computeColWidths mixed_width_rows)"
    by (simp add: list_all_iff)
  from t have b: "sum_list (filter (\<lambda>w. minColWidth < w) (computeColWidths mixed_width_rows)) \<le> maxTotalWidth"
    by blast
  have f: "sum_list (filter (\<lambda>w. minColWidth < w) (computeColWidths mixed_width_rows)) = 1290"
    unfolding e by (simp add: minColWidth_def)
  have n: "length (filter (\<lambda>w. w = minColWidth) (computeColWidths mixed_width_rows)) = 1"
    unfolding e by (simp add: minColWidth_def)
  have u: "sum_list (computeColWidths mixed_width_rows) = 1440"
    unfolding e by simp
  from e r f b n u s show ?thesis by blast
qed

definition sample_html_table :: string where
  "sample_html_table =
     ''<table><tr><th>A</th><th>B</th></tr><tr><td>1</td><td>2</td></tr></table>''"

text \<open>
  C6: convertHtmlTableToMarkdown on the sample table gives the three-line markdown with
  the separator row after the header, and the row parsing of createVisualTableElements
  reads it back as the grid \<open>[[A, B], [1, 2]]\<close>, the separator row discarded; the cell
  texts it emits are those four.
\<close>

theorem html_table_round_trip:
  "convertHtmlTableToMarkdown sample_html_table =
     ''| A | B |'' @ [CHR 0x0A] @ ''| --- | --- |'' @ [CHR 0x0A] @ ''| 1 | 2 |'' \<and>
   parse_rows (convertHtmlTableToMarkdown sample_html_table) = [[''A'', ''B''], [''1'', ''2'']] \<and>
   map etext (filter (\<lambda>el. etype el = ''text'')
     (createVisualTableElements (convertHtmlTableToMarkdown sample_html_table) 0 0)) =
     [''A'', ''B'', ''1'', ''2'']"
proof -
  have m: "convertHtmlTableToMarkdown sample_html_table =
     ''| A | B |'' @ [CHR 0x0A] @ ''| --- | --- |'' @ [CHR 0x0A] @ ''| 1 | 2 |''"
    unfolding sample_html_table_def by code_simp
  have p: "parse_rows (''| A | B |'' @ [CHR 0x0A] @ ''| --- | --- |'' @ [CHR 0x0A] @ ''| 1 | 2 |'')
             = [[''A'', ''B''], [''1'', ''2'']]"
    by code_simp
  have c: "map etext (filter (\<lambda>el. etype el = ''text'')
     (createVisualTableElements
        (''| A | B |'' @ [CHR 0x0A] @ ''| --- | --- |'' @ [CHR 0x0A] @ ''| 1 | 2 |'') 0 0)) =
     [''A'', ''B'', ''1'', ''2'']"
    by code_simp
  show ?thesis unfolding m using p c by simp
qed


subsection \<open>Document Walker: the cursor never decreases\<close>

lemma process_parts_mono: "currentY \<le> snd (process_parts env x parts currentY)"
proof (induction env x parts currentY rule: process_parts.induct)
  case (1 env x currentY)
  then show ?case by simp
next
  case (2 env x content parts currentY)
  then show ?case by (auto simp: Let_def split: prod.splits if_splits)
next
  case (3 env x content parts currentY)
  then show ?case by (auto simp: Let_def split: prod.splits if_splits)
qed

lemma fold_bottom_ge:
  "m \<le> fold (\<lambda>element maxY. let elementBottom = f element in if elementBottom > maxY then elementBottom else maxY) xs (m::rat)"
  by (induction xs arbitrary: m) (auto simp: Let_def intro: order_trans less_imp_le)

lemma mermaid_block_mono: "currentY \<le> snd (mermaid_block env startX depth currentY h)"
proof -
  have "currentY \<le> fold (\<lambda>element maxY.
            let elementBottom = ey element + height_or_20 (gheight element)
            in if elementBottom > maxY then elementBottom else maxY) xs currentY + 50" for xs
    using fold_bottom_ge [of currentY "\<lambda>element. ey element + height_or_20 (gheight element)" xs]
    by linarith
  then show ?thesis
    by (auto simp: mermaid_block_def Let_def split: sum.splits)
qed

lemma latex_block_mono: "currentY \<le> snd (latex_block env startX depth currentY h)"
  by (auto simp: latex_block_def Let_def)


lemma fold_max_ge: "(m::rat) \<le> fold max xs m"
  by (induction xs arbitrary: m) (auto intro: order_trans [OF max.cobounded2])

lemma fold_min_le: "fold min xs (m::rat) \<le> m"
  by (induction xs arbitrary: m) (auto intro: order_trans [OF _ min.cobounded2])

lemma table_advance_nonneg:
  assumes "\<forall>el\<in>set els. etype el = ''rectangle'' \<longrightarrow> 0 \<le> eheight el"
  shows "0 \<le> table_advance els"
proof (cases "filter (\<lambda>el. etype el = ''rectangle'') els")
  case Nil
  then show ?thesis by (simp add: table_advance_def)
next
  case (Cons r rs)
  then have "r \<in> set (filter (\<lambda>el. etype el = ''rectangle'') els)" by simp
  then have h: "0 \<le> eheight r" using assms by simp
  have "list_min (map ey (r # rs)) \<le> ey r" by (simp add: fold_min_le)
  moreover have "ey r + eheight r \<le> list_max (map (\<lambda>el. ey el + eheight el) (r # rs))"
    by (simp add: fold_max_ge)
  ultimately show ?thesis using h Cons by (simp add: table_advance_def Let_def)
qed

lemma computeRowHeight_ge: "baseRowHeight \<le> computeRowHeight cw i row"
proof -
  have "m \<le> fold (\<lambda>(colIndex, cell) maxRowHeight.
             if colIndex \<ge> length cw then maxRowHeight
             else
               (let fontSize = rowFontSize i;
                    wrappedText = wrapText cell (cw ! colIndex) fontSize;
                    lineCount = length (split_on (CHR 0x0A) wrappedText);
                    lineHeight = fontSize * (125 / 100);
                    contentHeight = of_nat lineCount * lineHeight + 20;
                    cellHeight = max baseRowHeight contentHeight
                in max maxRowHeight cellHeight)) xs m" for xs m
    by (induction xs arbitrary: m) (auto simp: Let_def split: prod.splits intro: order_trans [OF max.cobounded1])
  then show ?thesis unfolding computeRowHeight_def by blast
qed

lemma cell_elements_heights:
  "el \<in> set (cell_elements cw i y h x j cells) \<Longrightarrow> etype el = ''rectangle'' \<Longrightarrow> eheight el = h"
  by (induction cells arbitrary: x j) (auto simp: Let_def split: if_splits)

lemma row_elements_heights:
  "el \<in> set (row_elements cw sx i y rows) \<Longrightarrow> etype el = ''rectangle'' \<Longrightarrow> 0 \<le> eheight el"
proof (induction cw sx i y rows rule: row_elements.induct)
  case (1 colWidths startX rowIndex cumulativeY)
  then show ?case by simp
next
  case (2 colWidths startX rowIndex cumulativeY row rows)
  have "0 \<le> computeRowHeight colWidths rowIndex row"
    using computeRowHeight_ge [of colWidths rowIndex row] by (simp add: baseRowHeight_def)
  with 2 show ?case by (auto simp: Let_def dest: cell_elements_heights)
qed

lemma createVisualTableElements_advance:
  "0 \<le> table_advance (createVisualTableElements md x y)"
  by (rule table_advance_nonneg) (auto simp: createVisualTableElements_def Let_def dest: row_elements_heights)

lemma html_table_block_mono: "currentY \<le> snd (html_table_block i startX depth currentY h)"
  using createVisualTableElements_advance by (simp add: html_table_block_def Let_def)

lemma traverse_html_mono: "currentY \<le> snd (traverse_html env startX depth currentY h)"
  by (simp add: traverse_html_def Let_def mermaid_block_mono latex_block_mono html_table_block_mono)

lemma paragraph_children_mono:
  "currentY \<le> snd (snd (paragraph_children env startX depth children has currentY))"
proof (induction children arbitrary: has currentY)
  case Nil
  then show ?case by simp
next
  case (Cons child children)
  show ?case
  proof (cases child)
    case (Html h)
    obtain ce y where t: "traverse_html env startX depth currentY h = (ce, y)" by force
    have "currentY \<le> y" using traverse_html_mono [of currentY env startX depth h] t by simp
    moreover have "y \<le> snd (snd (paragraph_children env startX depth children True y))"
      by (rule Cons.IH)
    ultimately show ?thesis using Html t by (auto split: prod.splits)
  next
    case (Text v)
    define hs where "hs = (if length (latex_parts v) > 0 then True else has)"
    obtain pe y where t: "process_parts env (indent startX depth) (latex_parts v) currentY = (pe, y)"
      by force
    obtain els h' y' where r: "paragraph_children env startX depth children hs y = (els, h', y')"
      by (metis prod_cases3)
    have "currentY \<le> y"
      using process_parts_mono [of currentY env "indent startX depth" "latex_parts v"] t by simp
    moreover have "y \<le> y'"
      using Cons.IH [of y hs] r by simp
    ultimately show ?thesis using Text t r by (simp add: Let_def hs_def)
  qed (use Cons.IH in auto)
qed

lemma traverse_paragraph_mono: "currentY \<le> snd (traverse_paragraph env startX depth currentY children)"
  using paragraph_children_mono [of currentY env startX depth children False]
  by (auto simp: traverse_paragraph_def Let_def split: prod.splits)

lemma traverse_table_mono: "currentY \<le> snd (traverse_table startX depth currentY rows)"
  using createVisualTableElements_advance by (simp add: traverse_table_def Let_def)

lemma traverse_text_mono: "currentY \<le> snd (traverse_text startX tableBlocks depth currentY text)"
  by (simp add: traverse_text_def html_table_block_mono split: option.splits)

lemma traverse_mono:
  "currentY \<le> snd (traverse env startX tableBlocks node depth currentY)"
  "currentY \<le> snd (traverse_all env startX tableBlocks nodes depth currentY)"
proof (induction env startX tableBlocks node depth currentY and env startX tableBlocks nodes depth currentY
    rule: traverse_traverse_all.induct)
  case (1 env startX tableBlocks d children depth currentY)
  then show ?case by (simp add: Let_def)
next
  case (11 env startX tableBlocks child children depth currentY)
  then show ?case by (auto split: prod.splits)
qed (simp_all add: traverse_paragraph_mono traverse_html_mono traverse_table_mono traverse_text_mono
      split: option.splits)

lemma cursor_trace_lower:
  "v \<in> set (cursor_trace env startX tableBlocks children y) \<Longrightarrow> y \<le> v"
proof (induction children arbitrary: y)
  case Nil
  then show ?case by simp
next
  case (Cons c cs)
  then show ?case
    using traverse_mono(1) [of y env startX tableBlocks c 0] by (auto intro: order_trans)
qed

lemma cursor_trace_sorted: "sorted (cursor_trace env startX tableBlocks children y)"
proof (induction children arbitrary: y)
  case Nil
  then show ?case by simp
next
  case (Cons c cs)
  have "y \<le> v" if "v \<in> set (cursor_trace env startX tableBlocks cs
                    (snd (traverse env startX tableBlocks c 0 y)))" for v
    using cursor_trace_lower [OF that] traverse_mono(1) [of y env startX tableBlocks c 0]
    by (rule order_trans [rotated])
  with Cons show ?case by auto
qed

text \<open>
  C7: for every document tree, the values of \<open>currentY\<close> read at the start of each
  top-level child form a non-decreasing sequence, and no call of traverse, on any node at
  any depth, returns with a smaller \<open>currentY\<close> than it started with.
\<close>

theorem cursor_monotone:
  "sorted (cursor_trace env startX tableBlocks children startY) \<and>
   currentY \<le> snd (traverse env startX tableBlocks node depth currentY)"
  using cursor_trace_sorted traverse_mono(1) by blast

subsection \<open>Document Walker: scenarios\<close>

definition failing_env :: "unit env" where
  \<comment> \<open>a rasterizer that always fails and a diagram parser that always throws\<close>
  "failing_env =
     \<lparr>convertLatexToImage = (\<lambda>_. []), addFiles = (\<lambda>_. True),
      parseMermaid = (\<lambda>_. Inl ''Parse error''), graphToExcalidraw = (\<lambda>_. Inr [])\<rparr>"

text \<open>
  Two facts about the dispatch, for every input: an html node that holds a table and is
  no wrapper runs the diagram code; and a paragraph with a non-empty text child always
  has \<open>hasSpecialContent\<close> set, so it never takes the pure-text path.
\<close>

lemma html_table_condition_runs_diagram_code:
  assumes "\<not> (starts_with ''<mermaid>'' h \<and> ends_with ''</mermaid>'' h)"
    and "\<not> (starts_with ''<latex>'' h \<and> ends_with ''</latex>'' h)"
    and "includes_str h ''<table>''" and "includes_str h ''</table>''"
  shows "traverse env startX tableBlocks (Html h) depth y = mermaid_block env startX depth y h"
  using assms by (auto simp: traverse_html_def)

lemma latex_parts_nonempty: "v \<noteq> [] \<Longrightarrow> latex_parts v \<noteq> []"
  by (subst latex_parts.simps) (auto split: option.splits)

lemma paragraph_children_flag_kept:
  "fst (snd (paragraph_children env startX depth children True y))"
proof (induction children arbitrary: y)
  case Nil
  then show ?case by simp
next
  case (Cons child children)
  show ?case
  proof (cases child)
    case (Html h)
    obtain ce y1 where "traverse_html env startX depth y h = (ce, y1)" by force
    then show ?thesis using Html Cons.IH [of y1] by (auto split: prod.splits)
  next
    case (Text v)
    obtain pe y1 where "process_parts env (indent startX depth) (latex_parts v) y = (pe, y1)"
      by force
    then show ?thesis using Text Cons.IH [of y1] by (auto simp: Let_def split: prod.splits)
  qed (use Cons.IH in auto)
qed

lemma nonempty_text_child_sets_hasSpecialContent:
  assumes "Text v \<in> set children" and "v \<noteq> []"
  shows "fst (snd (paragraph_children env startX depth children has y))"
  using assms(1)
proof (induction children arbitrary: has y)
  case Nil
  then show ?case by simp
next
  case (Cons child children)
  show ?case
  proof (cases "child = Text v")
    case True
    obtain pe y1 where "process_parts env (indent startX depth) (latex_parts v) y = (pe, y1)"
      by force
    then show ?thesis
      using True latex_parts_nonempty [OF assms(2)] paragraph_children_flag_kept [of env startX depth children y1]
      by (auto simp: Let_def split: prod.splits)
  next
    case False
    then have in_tl: "Text v \<in> set children" using Cons.prems by simp
    show ?thesis
    proof (cases child)
      case (Html h)
      obtain ce y1 where "traverse_html env startX depth y h = (ce, y1)" by force
      then show ?thesis using Html paragraph_children_flag_kept [of env startX depth children y1]
        by (auto split: prod.splits)
    next
      case (Text w)
      define hs where "hs = (if length (latex_parts w) > 0 then True else has)"
      obtain pe y1 where p: "process_parts env (indent startX depth) (latex_parts w) y = (pe, y1)"
        by force
      obtain els h' y' where r: "paragraph_children env startX depth children hs y1 = (els, h', y')"
        by (metis prod_cases3)
      have "h'" using Cons.IH [OF in_tl, of hs y1] r by simp
      then show ?thesis using Text p r by (simp add: Let_def hs_def)
    qed (use Cons.IH [OF in_tl] in auto)
  qed
qed

lemma pure_text_path_unreachable:
  assumes "Text v \<in> set children" and "v \<noteq> []"
  shows "traverse env startX tableBlocks (Paragraph children) depth y =
         (case paragraph_children env startX depth children False y of
            (paragraphElements, hasSpecialContent, y') \<Rightarrow> (paragraphElements, y'))"
  using nonempty_text_child_sets_hasSpecialContent [OF assms, of env startX depth False y]
  by (auto simp: traverse_paragraph_def split: prod.splits)

text \<open>
  C1, at a failing input: an html node holding a table, which is neither a diagram
  wrapper nor an equation wrapper, is handled by the diagram code (the first \<open><table>\<close>
  condition repeats the diagram branch), so with a parser that rejects the text the
  walker emits the diagram error text; the table branch, which would have emitted the
  grid of the table, is never reached.
\<close>

theorem html_table_node_takes_diagram_branch:
  "traverse failing_env 0 [] (Html sample_html_table) 0 0 =
     ([TextEl ''mermaid-error-'' 0 0 400 30 ''Error rendering mermaid: Parse error'' 16
         ''#ff0000''], 50) \<and>
   traverse failing_env 0 [] (Html sample_html_table) 0 0 =
     mermaid_block failing_env 0 0 0 sample_html_table \<and>
   map etext (filter (\<lambda>el. etype el = ''text'')
     (fst (html_table_block ''html-table-error-'' 0 0 0 sample_html_table))) =
     [''A'', ''B'', ''1'', ''2'']"
proof -
  have a: "traverse failing_env 0 [] (Html sample_html_table) 0 0 =
     ([TextEl ''mermaid-error-'' 0 0 400 30 ''Error rendering mermaid: Parse error'' 16
         ''#ff0000''], 50)"
    unfolding failing_env_def sample_html_table_def by code_simp
  have b: "mermaid_block failing_env 0 0 0 sample_html_table =
     ([TextEl ''mermaid-error-'' 0 0 400 30 ''Error rendering mermaid: Parse error'' 16
         ''#ff0000''], 50)"
    unfolding failing_env_def sample_html_table_def by code_simp
  have c: "map etext (filter (\<lambda>el. etype el = ''text'')
     (fst (html_table_block ''html-table-error-'' 0 0 0 sample_html_table))) =
     [''A'', ''B'', ''1'', ''2'']"
    unfolding sample_html_table_def by code_simp
  show ?thesis using a b c by simp
qed

text \<open>
  C2, as stated: the paragraph text with a failing rasterizer gives three primitives, the
  middle one the text \<open>LaTeX Error: E=mc^2\<close>. With the text as written (the tag
  \<open>equation\<close>) the scan, which looks for \<open><latex>\<close>, finds no marker and the walker emits
  one primitive; with the marker the code looks for, the empty result of the rasterizer
  gives the text \<open>LaTeX: E=mc^2\<close>, not \<open>LaTeX Error: E=mc^2\<close>.
\<close>

theorem failing_rasterizer_counterexample:
  "map etext (fst (traverse failing_env 0 []
      (Paragraph [Text ''Energy: <equation>E=mc^2</equation> is conserved.'']) 0 0)) =
     [''Energy: <equation>E=mc^2</equation> is conserved.''] \<and>
   map etext (fst (traverse failing_env 0 []
      (Paragraph [Text ''Energy: <latex>E=mc^2</latex> is conserved.'']) 0 0)) =
     [''Energy: '', ''LaTeX: E=mc^2'', '' is conserved.''] \<and>
   ''LaTeX: E=mc^2'' \<noteq> ''LaTeX Error: E=mc^2''"
proof -
  have a: "map etext (fst (traverse failing_env 0 []
      (Paragraph [Text ''Energy: <equation>E=mc^2</equation> is conserved.'']) 0 0)) =
     [''Energy: <equation>E=mc^2</equation> is conserved.'']"
    unfolding failing_env_def by code_simp
  have b: "map etext (fst (traverse failing_env 0 []
      (Paragraph [Text ''Energy: <latex>E=mc^2</latex> is conserved.'']) 0 0)) =
     [''Energy: '', ''LaTeX: E=mc^2'', '' is conserved.'']"
    unfolding failing_env_def by code_simp
  show ?thesis using a b by simp
qed

text \<open>
  C2, amended: for the paragraph text \<open>Energy: <latex>E=mc^2</latex> is conserved.\<close> and
  a rasterizer that yields the empty value for \<open>E=mc^2\<close>, the walker emits exactly three
  primitives: the text \<open>Energy: \<close>, the fallback-styled text \<open>LaTeX: E=mc^2\<close> (stroke
  \<open>#ff6b35\<close>), and the text \<open> is conserved.\<close>, at \<open>y\<close>, \<open>y + 25\<close> and \<open>y + 50\<close>.
\<close>

theorem failing_rasterizer_fallback:
  assumes "convertLatexToImage env ''E=mc^2'' = []"
  shows "traverse env startX tableBlocks
           (Paragraph [Text ''Energy: <latex>E=mc^2</latex> is conserved.'']) depth y =
         ([TextEl ''text-'' (indent startX depth) y 400 20 ''Energy: '' 14 ''#000000'',
           TextEl ''latex-inline-error-'' (indent startX depth) (y + 25) 200 20
             ''LaTeX: E=mc^2'' 14 ''#ff6b35'',
           TextEl ''text-'' (indent startX depth) (y + 50) 400 20 '' is conserved.'' 14
             ''#000000''],
          y + 75)"
proof -
  have p: "latex_parts ''Energy: <latex>E=mc^2</latex> is conserved.'' =
           [TextPart ''Energy: '', LatexPart ''E=mc^2'', TextPart '' is conserved.'']"
    by code_simp
  have t: "trim ''Energy: '' \<noteq> []" "trim '' is conserved.'' \<noteq> []"
    by code_simp+
  show ?thesis using assms by (simp add: traverse_paragraph_def p t)
qed

theorem failing_rasterizer_fallback_witness:
  "convertLatexToImage failing_env ''E=mc^2'' = [] \<and>
   traverse failing_env 0 []
     (Paragraph [Text ''Energy: <latex>E=mc^2</latex> is conserved.'']) 0 0 =
   ([TextEl ''text-'' 0 0 400 20 ''Energy: '' 14 ''#000000'',
     TextEl ''latex-inline-error-'' 0 25 200 20 ''LaTeX: E=mc^2'' 14 ''#ff6b35'',
     TextEl ''text-'' 0 50 400 20 '' is conserved.'' 14 ''#000000''],
    75)"
proof -
  have h: "convertLatexToImage failing_env ''E=mc^2'' = []"
    by (simp add: failing_env_def)
  from failing_rasterizer_fallback [OF h, of 0 "[]" 0 0] h show ?thesis
    by (simp add: indent_def)
qed

text \<open>
  C4, at a failing input: the paragraph \<open>Hello **world**\<close> has no html child and no
  equation marker, yet the walker does not take the pure-text path: the text child alone
  sets \<open>hasSpecialContent\<close>, so the walker emits the text \<open>Hello \<close> only (height 20), drops
  the bold text, and advances the cursor by 25, not by the paragraph increment 30.
\<close>

theorem plain_paragraph_at_failing_input:
  "traverse env startX tableBlocks
     (Paragraph [Text ''Hello '', Other ''strong'' None (Some [Text ''world''])]) depth y =
     ([TextEl ''text-'' (indent startX depth) y 400 20 ''Hello '' 14 ''#000000''], y + 25) \<and>
   collectAllText (Paragraph [Text ''Hello '', Other ''strong'' None (Some [Text ''world''])]) =
     ''Hello world''"
proof -
  have "latex_parts ''Hello '' = [TextPart ''Hello '']" by code_simp
  moreover have "trim ''Hello '' \<noteq> []" by code_simp
  ultimately show ?thesis by (simp add: traverse_paragraph_def)
qed

text \<open>
  C10: for a standalone text node whose value matches \<open>TABLE_BLOCK_n\<close> with \<open>n\<close> at least
  the length of \<open>tableBlocks\<close>, the walker emits no primitive and leaves \<open>currentY\<close>
  unchanged.
\<close>

theorem table_block_out_of_range:
  assumes "table_block_index text = Some n" and "length tableBlocks \<le> n"
  shows "traverse env startX tableBlocks (Text text) depth currentY = ([], currentY)"
  using assms by (simp add: traverse_text_def)

theorem table_block_out_of_range_witness:
  "table_block_index ''__TABLE_BLOCK_3__'' = Some 3 \<and>
   length [sample_html_table] \<le> 3 \<and>
   traverse failing_env 0 [sample_html_table] (Text ''__TABLE_BLOCK_3__'') 0 7 = ([], 7)"
proof -
  have i: "table_block_index ''__TABLE_BLOCK_3__'' = Some 3" by code_simp
  have l: "length [sample_html_table] \<le> 3" by simp
  from table_block_out_of_range [OF i l] i l show ?thesis by simp
qed

subsection \<open>The alternate normalizer\<close>

text \<open>
  How much the normalization steps can add: each step is followed through the number of
  characters of a given kind, first of all the line feeds and the characters that the
  later steps expand.
\<close>

definition count_chars :: "string \<Rightarrow> string \<Rightarrow> nat" where
  \<comment> \<open>how many characters of the second string belong to the first\<close>
  "count_chars cs s = length (filter (\<lambda>c. c \<in> set cs) s)"

lemma split_on_not_Nil: "split_on d s \<noteq> []"
  by (induction s) (auto split: list.splits)

lemma length_split_on: "length (split_on d s) = Suc (length (filter (\<lambda>c. c = d) s))"
  using split_on_not_Nil [of d] by (induction s) (auto split: list.splits)

lemma join_split_on: "join [d] (split_on d s) = s"
proof (induction s)
  case Nil
  then show ?case by simp
next
  case (Cons c cs)
  obtain r rs where r: "split_on d cs = r # rs"
    using split_on_not_Nil [of d cs] by (cases "split_on d cs") auto
  with Cons show ?case by (cases rs) auto
qed

lemma filter_join:
  "length (filter P (join [d] ls)) =
     sum_list (map (\<lambda>l. length (filter P l)) ls) + (if P d then length ls - 1 else 0)"
  by (induction "[d]" ls rule: join.induct) auto

lemma dedup_lines_sum:
  fixes f :: "string \<Rightarrow> nat"
  shows "sum_list (map f (dedup_lines seen ls)) \<le> sum_list (map f ls)"
proof (induction ls arbitrary: seen)
  case Nil
  then show ?case by simp
next
  case (Cons l ls)
  from Cons [of seen] Cons [of "trim l # seen"] show ?case
    by (simp add: Let_def trans_le_add2)
qed

lemma dedup_lines_length: "length (dedup_lines seen ls) \<le> length ls"
proof (induction ls arbitrary: seen)
  case Nil
  then show ?case by simp
next
  case (Cons l ls)
  from Cons [of seen] Cons [of "trim l # seen"] show ?case
    by (simp add: Let_def le_SucI)
qed

lemma filter_dedup:
  "length (filter P (join [d] (dedup_lines seen (split_on d s)))) \<le> length (filter P s)"
proof -
  have "length (filter P (join [d] (dedup_lines seen (split_on d s))))
          \<le> length (filter P (join [d] (split_on d s)))"
    unfolding filter_join
    using dedup_lines_sum [of "\<lambda>l. length (filter P l)" seen "split_on d s"]
      dedup_lines_length [of seen "split_on d s"]
    by auto
  then show ?thesis by (simp add: join_split_on)
qed

lemma filter_dropWhile_le: "length (filter P (dropWhile Q s)) \<le> length (filter P s)"
  by (induction s) auto

lemma filter_drop_le: "length (filter P (drop n s)) \<le> length (filter P s)"
  by (induction s arbitrary: n) (auto simp: drop_Cons split: nat.splits intro: le_trans le_SucI)

lemma filter_trim: "length (filter P (trim s)) \<le> length (filter P s)"
proof -
  have "length (filter P (trim s)) = length (filter P (dropWhile is_ws (rev (dropWhile is_ws s))))"
    by (simp add: trim_def rev_filter [symmetric])
  also have "\<dots> \<le> length (filter P (rev (dropWhile is_ws s)))" by (rule filter_dropWhile_le)
  also have "\<dots> = length (filter P (dropWhile is_ws s))" by (simp add: rev_filter [symmetric])
  also have "\<dots> \<le> length (filter P s)" by (rule filter_dropWhile_le)
  finally show ?thesis .
qed

lemma length_trim: "length (trim s) \<le> length s"
  using filter_trim [of "\<lambda>c. True" s] by simp

lemma filter_find_match:
  "find_match m s = Some (pre, post) \<Longrightarrow>
     length (filter P pre) + length (filter P post) \<le> length (filter P s)"
proof (induction s arbitrary: pre)
  case Nil
  then show ?case by (auto split: option.splits)
next
  case (Cons c cs)
  show ?case
  proof (cases "m (c # cs)")
    case (Some n)
    with Cons.prems have "pre = []" and "post = drop n (c # cs)" by auto
    then show ?thesis using filter_drop_le [of P n "c # cs"] by simp
  next
    case None
    with Cons.prems obtain pre' where p: "find_match m cs = Some (pre', post)" and "pre = c # pre'"
      by (auto split: option.splits)
    with Cons.IH [OF p] show ?thesis by auto
  qed
qed

lemma filter_extract_code: "length (filter P (extract_code s)) \<le> length (filter P s)"
proof (cases "find_match (lit ''```'') s")
  case None
  then show ?thesis by (simp add: extract_code_def filter_trim)
next
  case (Some a)
  obtain pre opened where a: "a = (pre, opened)" by (cases a)
  define body where "body = (if starts_with ''mermaid'' opened then drop 7 opened else opened)"
  from filter_find_match [OF Some [unfolded a], of P]
  have o: "length (filter P opened) \<le> length (filter P s)" by simp
  have "length (filter P body) \<le> length (filter P opened)"
    unfolding body_def using filter_drop_le [of P 7 opened] by simp
  with o have b: "length (filter P body) \<le> length (filter P s)" by simp
  show ?thesis
  proof (cases "find_match (lit ''```'') body")
    case None
    with Some a show ?thesis
      by (simp add: extract_code_def body_def [symmetric] filter_trim del: starts_with.simps)
  next
    case s2: (Some b2)
    obtain code post where b2: "b2 = (code, post)" by (cases b2)
    from filter_find_match [OF s2 [unfolded b2], of P]
    have "length (filter P code) \<le> length (filter P body)" by simp
    with b filter_trim [of P code] have "length (filter P (trim code)) \<le> length (filter P s)"
      by simp
    with Some a s2 b2 show ?thesis
      by (simp add: extract_code_def body_def [symmetric] del: starts_with.simps)
  qed
qed

lemma filter_mono_length:
  "(\<And>c. P c \<Longrightarrow> Q c) \<Longrightarrow> length (filter P s) \<le> length (filter Q s)"
  by (induction s) auto

lemma starts_with_single: "starts_with [x] s = (\<exists>r. s = x # r)"
  by (cases s) auto

lemma dropWhile_neq_Cons:
  "d \<in> set cs \<Longrightarrow> \<exists>r. dropWhile (\<lambda>x. x \<noteq> d) cs = d # r"
  by (induction cs) auto

lemma filter_braces:
  assumes "\<And>c. P c \<Longrightarrow> Q c" and "P (CHR ''['') \<Longrightarrow> Q (CHR ''{'')" and "P (CHR '']'') \<Longrightarrow> Q (CHR ''}'')"
  shows "length (filter P (braces_to_brackets s)) \<le> length (filter Q s)"
proof (induction s rule: braces_to_brackets.induct)
  case 1
  then show ?case by simp
next
  case (2 c cs)
  show ?case
  proof (cases "c = CHR ''{'' \<and> CHR ''}'' \<in> set cs")
    case True
    then have "CHR ''}'' \<in> set cs" by simp
    from dropWhile_neq_Cons [OF this]
    obtain r where r: "dropWhile (\<lambda>x. x \<noteq> CHR ''}'') cs = CHR ''}'' # r" ..
    define t where "t = takeWhile (\<lambda>x. x \<noteq> CHR ''}'') cs"
    have cs: "cs = t @ CHR ''}'' # r"
      using takeWhile_dropWhile_id [of "\<lambda>x. x \<noteq> CHR ''}''" cs]
      unfolding t_def [symmetric] r by (rule sym)
    from "2.IH"(1) [OF True] r have ih: "length (filter P (braces_to_brackets r)) \<le> length (filter Q r)"
      by simp
    have m: "length (filter P t) \<le> length (filter Q t)"
      using assms(1) by (rule filter_mono_length)
    have b: "braces_to_brackets (c # cs) = CHR ''['' # t @ CHR '']'' # braces_to_brackets r"
      using True by (simp add: t_def r)
    show ?thesis unfolding b using ih m assms(2,3) True by (simp add: cs)
  next
    case False
    with "2.IH"(2) assms(1) show ?thesis by auto
  qed
qed

lemma length_braces: "length (braces_to_brackets s) \<le> length s"
  using filter_braces [of "\<lambda>c. True" "\<lambda>c. True" s] by simp


lemma length_quote_labels:
  "length (quote_labels s) \<le> length s + 2 * length (filter (\<lambda>c. c = CHR ''['') s)"
proof (induction s rule: quote_labels.induct)
  case 1
  then show ?case by simp
next
  case (2 c cs)
  define inner where "inner = takeWhile is_label_char cs"
  define rest where "rest = dropWhile is_label_char cs"
  show ?case
  proof (cases "c = CHR ''['' \<and> inner \<noteq> [] \<and> starts_with '']'' rest")
    case True
    then obtain r where r: "rest = CHR '']'' # r" by (auto simp: starts_with_single)
    have cs: "cs = inner @ CHR '']'' # r"
      using takeWhile_dropWhile_id [of is_label_char cs]
      unfolding inner_def [symmetric] rest_def [symmetric] r by (rule sym)
    from "2.IH"(1) [OF inner_def rest_def True] r
    have ih: "length (quote_labels r) \<le> length r + 2 * length (filter (\<lambda>c. c = CHR ''['') r)"
      by simp
    have q: "quote_labels (c # cs) =
               ''['' @ [CHR 0x22] @ trim inner @ [CHR 0x22] @ '']'' @ quote_labels r"
      using True r by (simp add: Let_def inner_def [symmetric] rest_def [symmetric] del: starts_with.simps)
    have "length (trim inner) \<le> length inner"
      unfolding trim_def using length_dropWhile_le [of is_ws "rev (dropWhile is_ws inner)"]
        length_dropWhile_le [of is_ws inner] by simp
    with ih True show ?thesis unfolding q by (simp add: cs)
  next
    case False
    then have "quote_labels (c # cs) = c # quote_labels cs"
      by (auto simp: Let_def inner_def [symmetric] rest_def [symmetric] simp del: starts_with.simps)
    with "2.IH"(2) [OF inner_def rest_def False] show ?thesis by simp
  qed
qed

lemma filter_quote_labels:
  assumes "\<not> P (CHR 0x22)"
  shows "length (filter P (quote_labels s)) \<le> length (filter P s)"
proof (induction s rule: quote_labels.induct)
  case 1
  then show ?case by simp
next
  case (2 c cs)
  define inner where "inner = takeWhile is_label_char cs"
  define rest where "rest = dropWhile is_label_char cs"
  show ?case
  proof (cases "c = CHR ''['' \<and> inner \<noteq> [] \<and> starts_with '']'' rest")
    case True
    then obtain r where r: "rest = CHR '']'' # r" by (auto simp: starts_with_single)
    have cs: "cs = inner @ CHR '']'' # r"
      using takeWhile_dropWhile_id [of is_label_char cs]
      unfolding inner_def [symmetric] rest_def [symmetric] r by (rule sym)
    from "2.IH"(1) [OF inner_def rest_def True] r
    have ih: "length (filter P (quote_labels r)) \<le> length (filter P r)"
      by simp
    have q: "quote_labels (c # cs) =
               ''['' @ [CHR 0x22] @ trim inner @ [CHR 0x22] @ '']'' @ quote_labels r"
      using True r by (simp add: Let_def inner_def [symmetric] rest_def [symmetric] del: starts_with.simps)
    from ih filter_trim [of P inner] assms True show ?thesis unfolding q by (simp add: cs)
  next
    case False
    then have "quote_labels (c # cs) = c # quote_labels cs"
      by (auto simp: Let_def inner_def [symmetric] rest_def [symmetric] simp del: starts_with.simps)
    with "2.IH"(2) [OF inner_def rest_def False] show ?thesis by simp
  qed
qed

lemma filter_map_safe_id:
  assumes "\<And>c. P (safe_id_char c) \<Longrightarrow> P c"
  shows "length (filter P (map safe_id_char s)) \<le> length (filter P s)"
  using assms by (induction s) auto

lemma sanitize_ids_Cons:
  "sanitize_ids b (c # cs) =
     (if b \<and> takeWhile is_id_char (c # cs) \<noteq> [] \<and> starts_with ''['' (dropWhile is_id_char (c # cs))
      then map safe_id_char (takeWhile is_id_char (c # cs)) @ ''['' @
           sanitize_ids False (drop 1 (dropWhile is_id_char (c # cs)))
      else c # sanitize_ids (is_line_terminator c) cs)"
  by (simp only: sanitize_ids.simps Let_def)

lemma filter_sanitize_ids:
  assumes "\<And>c. P (safe_id_char c) \<Longrightarrow> P c"
  shows "length (filter P (sanitize_ids b s)) \<le> length (filter P s)"
proof (induction b s rule: sanitize_ids.induct)
  case (1 b)
  then show ?case by simp
next
  case (2 b c cs)
  define ident where "ident = takeWhile is_id_char (c # cs)"
  define rest where "rest = dropWhile is_id_char (c # cs)"
  show ?case
  proof (cases "b \<and> ident \<noteq> [] \<and> starts_with ''['' rest")
    case True
    then obtain r where r: "rest = CHR ''['' # r" by (auto simp: starts_with_single)
    have cs: "c # cs = ident @ CHR ''['' # r"
      using takeWhile_dropWhile_id [of is_id_char "c # cs"]
      unfolding ident_def [symmetric] rest_def [symmetric] r by (rule sym)
    from "2.IH"(1) [OF ident_def rest_def True] r
    have ih: "length (filter P (sanitize_ids False r)) \<le> length (filter P r)"
      by simp
    have q: "sanitize_ids b (c # cs) = map safe_id_char ident @ ''['' @ sanitize_ids False r"
      unfolding sanitize_ids_Cons ident_def [symmetric] rest_def [symmetric]
      using True r by simp
    have m: "length (filter P (map safe_id_char ident)) \<le> length (filter P ident)"
      using assms by (rule filter_map_safe_id)
    have "length (filter P (sanitize_ids b (c # cs)))
            = length (filter P (map safe_id_char ident)) + length (filter P ''['')
              + length (filter P (sanitize_ids False r))"
      unfolding q by simp
    moreover have "length (filter P (c # cs))
            = length (filter P ident) + length (filter P ''['') + length (filter P r)"
      by (subst cs) simp
    ultimately show ?thesis using ih m by linarith
  next
    case False
    then have "sanitize_ids b (c # cs) = c # sanitize_ids (is_line_terminator c) cs"
      unfolding sanitize_ids_Cons ident_def [symmetric] rest_def [symmetric] by auto
    with "2.IH"(2) [OF ident_def rest_def False] show ?thesis by simp
  qed
qed

lemma length_sanitize_ids: "length (sanitize_ids b s) \<le> length s"
proof -
  have "length (filter (\<lambda>c. True) (sanitize_ids b s)) \<le> length (filter (\<lambda>c. True) s)"
    by (rule filter_sanitize_ids)
  then show ?thesis by simp
qed

lemma replace_all_single:
  "replace_all [x] r s = concat (map (\<lambda>c. if c = x then r else [c]) s)"
  by (induction s) auto

lemma length_replace_all_single:
  "length (replace_all [x] r s) = length s + (length r - 1) * length (filter (\<lambda>c. c = x) s)"
  if "r \<noteq> []"
proof -
  from that have "0 < length r" by simp
  then show ?thesis unfolding replace_all_single by (induction s) auto
qed

lemma filter_replace_all_single:
  "length (filter P (replace_all [x] r s)) = length (filter P s)"
  if "\<not> P x" and "\<forall>c\<in>set r. \<not> P c"
proof -
  from that(2) have "filter P r = []" by (simp add: filter_empty_conv)
  with that(1) show ?thesis unfolding replace_all_single by (induction s) auto
qed

lemma length_escape_label:
  assumes "CHR 0x22 \<notin> set label"
  shows "length (escape_label label) \<le> length label + 4 * count_chars ''&<>'' label"
proof -
  define a where "a = replace_all ''&'' ''&amp;'' label"
  define b where "b = replace_all ''<'' ''&lt;'' a"
  define c where "c = replace_all ''>'' ''&gt;'' b"
  have la: "length a = length label + 4 * length (filter (\<lambda>c. c = CHR ''&'') label)"
    unfolding a_def by (subst length_replace_all_single) simp_all
  have lb: "length b = length a + 3 * length (filter (\<lambda>c. c = CHR ''<'') a)"
    unfolding b_def by (subst length_replace_all_single) simp_all
  have lc: "length c = length b + 3 * length (filter (\<lambda>c. c = CHR ''>'') b)"
    unfolding c_def by (subst length_replace_all_single) simp_all
  have ld: "length (escape_label label) = length c + 5 * length (filter (\<lambda>c. c = CHR 0x22) c)"
    unfolding escape_label_def c_def b_def a_def by (subst length_replace_all_single) simp_all
  have a1: "length (filter (\<lambda>c. c = CHR ''<'') a) = length (filter (\<lambda>c. c = CHR ''<'') label)"
    unfolding a_def by (rule filter_replace_all_single) simp_all
  have a2: "length (filter (\<lambda>c. c = CHR ''>'') a) = length (filter (\<lambda>c. c = CHR ''>'') label)"
    unfolding a_def by (rule filter_replace_all_single) simp_all
  have a3: "length (filter (\<lambda>c. c = CHR 0x22) a) = length (filter (\<lambda>c. c = CHR 0x22) label)"
    unfolding a_def by (rule filter_replace_all_single) simp_all
  have b2: "length (filter (\<lambda>c. c = CHR ''>'') b) = length (filter (\<lambda>c. c = CHR ''>'') a)"
    unfolding b_def by (rule filter_replace_all_single) simp_all
  have b3: "length (filter (\<lambda>c. c = CHR 0x22) b) = length (filter (\<lambda>c. c = CHR 0x22) a)"
    unfolding b_def by (rule filter_replace_all_single) simp_all
  have c3: "length (filter (\<lambda>c. c = CHR 0x22) c) = length (filter (\<lambda>c. c = CHR 0x22) b)"
    unfolding c_def by (rule filter_replace_all_single) simp_all
  from assms have q: "length (filter (\<lambda>c. c = CHR 0x22) label) = 0"
    by (auto simp: filter_empty_conv)
  have "length (filter (\<lambda>c. c = CHR ''&'') label) + length (filter (\<lambda>c. c = CHR ''<'') label)
          + length (filter (\<lambda>c. c = CHR ''>'') label) = count_chars ''&<>'' label"
    unfolding count_chars_def by (induction label) auto
  with la lb lc ld a1 a2 a3 b2 b3 c3 q show ?thesis by simp
qed

lemma filter_escape_label:
  assumes "\<not> P (CHR ''&'')" and "\<not> P (CHR ''<'')" and "\<not> P (CHR ''>'')" and "\<not> P (CHR 0x22)"
    and "\<forall>c\<in>set ''&amp;&lt;&gt;&quot;''. \<not> P c"
  shows "length (filter P (escape_label label)) = length (filter P label)"
  unfolding escape_label_def using assms
  by (simp add: filter_replace_all_single)

lemma starts_with_pair: "starts_with [x, y] s = (\<exists>r. s = x # y # r)"
proof (cases s)
  case Nil
  then show ?thesis by simp
next
  case (Cons a t)
  then show ?thesis by (cases t) auto
qed

lemma count_chars_Nil [simp]: "count_chars cs [] = 0"
  by (simp add: count_chars_def)

lemma count_chars_Cons [simp]:
  "count_chars cs (c # s) = (if c \<in> set cs then 1 else 0) + count_chars cs s"
  by (simp add: count_chars_def)

lemma count_chars_append [simp]: "count_chars cs (a @ b) = count_chars cs a + count_chars cs b"
  by (simp add: count_chars_def)

lemma escape_labels_Cons:
  "escape_labels (c # cs) =
     (if starts_with (''['' @ [CHR 0x22]) (c # cs)
         \<and> starts_with ([CHR 0x22] @ '']'') (dropWhile (\<lambda>x. x \<noteq> CHR 0x22) (drop 1 cs))
      then ''['' @ [CHR 0x22] @ escape_label (takeWhile (\<lambda>x. x \<noteq> CHR 0x22) (drop 1 cs))
           @ [CHR 0x22] @ '']''
           @ escape_labels (drop 2 (dropWhile (\<lambda>x. x \<noteq> CHR 0x22) (drop 1 cs)))
      else c # escape_labels cs)"
  by (simp only: escape_labels.simps Let_def)

lemma escape_labels_cases:
  obtains (label) c cs label r where "s = c # cs"
      and "starts_with (''['' @ [CHR 0x22]) (c # cs)
           \<and> starts_with ([CHR 0x22] @ '']'') (dropWhile (\<lambda>x. x \<noteq> CHR 0x22) (drop 1 cs))"
      and "label = takeWhile (\<lambda>x. x \<noteq> CHR 0x22) (drop 1 cs)"
      and "r = drop 2 (dropWhile (\<lambda>x. x \<noteq> CHR 0x22) (drop 1 cs))"
      and "s = ''['' @ [CHR 0x22] @ label @ [CHR 0x22] @ '']'' @ r"
      and "escape_labels s = ''['' @ [CHR 0x22] @ escape_label label @ [CHR 0x22] @ '']'' @ escape_labels r"
      and "CHR 0x22 \<notin> set label"
    | (skip) c cs where "s = c # cs"
      and "\<not> (starts_with (''['' @ [CHR 0x22]) (c # cs)
           \<and> starts_with ([CHR 0x22] @ '']'') (dropWhile (\<lambda>x. x \<noteq> CHR 0x22) (drop 1 cs)))"
      and "escape_labels s = c # escape_labels cs"
    | (nil) "s = []"
proof (cases s)
  case Nil
  then show ?thesis by (rule nil)
next
  case (Cons c cs)
  define label where "label = takeWhile (\<lambda>x. x \<noteq> CHR 0x22) (drop 1 cs)"
  define rest where "rest = dropWhile (\<lambda>x. x \<noteq> CHR 0x22) (drop 1 cs)"
  show ?thesis
  proof (cases "starts_with (''['' @ [CHR 0x22]) (c # cs) \<and> starts_with ([CHR 0x22] @ '']'') rest")
    case True
    then obtain t where t: "c # cs = CHR ''['' # CHR 0x22 # t"
      using starts_with_pair [of "CHR ''[''" "CHR 0x22" "c # cs"] by auto
    from True obtain r where r: "rest = CHR 0x22 # CHR '']'' # r"
      using starts_with_pair [of "CHR 0x22" "CHR '']''" rest] by auto
    from t have d: "drop 1 cs = t" by auto
    have "label @ rest = t"
      unfolding label_def rest_def d by (rule takeWhile_dropWhile_id)
    with t r have s: "s = ''['' @ [CHR 0x22] @ label @ [CHR 0x22] @ '']'' @ r"
      by (simp add: Cons)
    have e: "escape_labels s = ''['' @ [CHR 0x22] @ escape_label label @ [CHR 0x22] @ '']'' @ escape_labels r"
      unfolding Cons escape_labels_Cons label_def [symmetric] rest_def [symmetric]
      using True by (simp add: r)
    have n: "CHR 0x22 \<notin> set label"
      unfolding label_def by (auto dest: set_takeWhileD)
    show ?thesis
      using Cons True [unfolded rest_def] label_def _ s e n
    proof (rule label)
      show "r = drop 2 (dropWhile (\<lambda>x. x \<noteq> CHR 0x22) (drop 1 cs))"
        unfolding rest_def [symmetric] r by simp
    qed
  next
    case False
    have "escape_labels s = c # escape_labels cs"
      unfolding Cons escape_labels_Cons rest_def [symmetric] using False by auto
    with Cons False [unfolded rest_def] show ?thesis by (rule skip)
  qed
qed

lemma length_escape_labels:
  "length (escape_labels s) \<le> length s + 4 * count_chars ''&<>'' s"
proof (induction s rule: escape_labels.induct)
  case 1
  then show ?case by simp
next
  case (2 c cs)
  show ?case
  proof (cases "c # cs" rule: escape_labels_cases)
    case (label c' cs' label r)
    then have eq: "c' = c" "cs' = cs" by simp_all
    from "2.IH"(1) [OF refl refl label(2) [unfolded eq]] label(4) [unfolded eq]
    have ih: "length (escape_labels r) \<le> length r + 4 * count_chars ''&<>'' r" by simp
    have "length (escape_labels (c # cs)) = 4 + length (escape_label label) + length (escape_labels r)"
      unfolding label(6) by simp
    also have "\<dots> \<le> 4 + (length label + 4 * count_chars ''&<>'' label)
                     + (length r + 4 * count_chars ''&<>'' r)"
      using ih length_escape_label [OF label(7)] by linarith
    also have "\<dots> \<le> length (c # cs) + 4 * count_chars ''&<>'' (c # cs)"
      by (subst (1 2) label(5)) simp
    finally show ?thesis .
  next
    case (skip c' cs')
    then have eq: "c' = c" "cs' = cs" by simp_all
    from "2.IH"(2) [OF refl refl skip(2) [unfolded eq]]
    have "length (escape_labels cs) \<le> length cs + 4 * count_chars ''&<>'' cs" .
    then show ?thesis unfolding skip(3) eq by simp
  next
    case nil
    then show ?thesis by simp
  qed
qed

lemma filter_escape_labels:
  assumes "\<not> P (CHR ''&'')" and "\<not> P (CHR ''<'')" and "\<not> P (CHR ''>'')" and "\<not> P (CHR 0x22)"
    and "\<forall>c\<in>set ''&amp;&lt;&gt;&quot;''. \<not> P c"
  shows "length (filter P (escape_labels s)) \<le> length (filter P s)"
proof (induction s rule: escape_labels.induct)
  case 1
  then show ?case by simp
next
  case (2 c cs)
  show ?case
  proof (cases "c # cs" rule: escape_labels_cases)
    case (label c' cs' label r)
    then have eq: "c' = c" "cs' = cs" by simp_all
    from "2.IH"(1) [OF refl refl label(2) [unfolded eq]] label(4) [unfolded eq]
    have ih: "length (filter P (escape_labels r)) \<le> length (filter P r)" by simp
    have l: "length (filter P (escape_label label)) = length (filter P label)"
      using assms by (rule filter_escape_label)
    have "length (filter P (escape_labels (c # cs)))
            = length (filter P ''['') + length (filter P (escape_label label))
              + length (filter P '']'') + length (filter P (escape_labels r))"
      unfolding label(6) using assms(4) by simp
    moreover have "length (filter P (c # cs))
            = length (filter P ''['') + length (filter P label)
              + length (filter P '']'') + length (filter P r)"
      using assms(4) by (subst label(5)) simp
    ultimately show ?thesis using ih l by linarith
  next
    case (skip c' cs')
    then have eq: "c' = c" "cs' = cs" by simp_all
    from "2.IH"(2) [OF refl refl skip(2) [unfolded eq]]
    have "length (filter P (escape_labels cs)) \<le> length (filter P cs)" .
    then show ?thesis unfolding skip(3) eq by simp
  next
    case nil
    then show ?thesis by simp
  qed
qed

definition fenced_sample :: string where
  "fenced_sample =
     ''Here: ```mermaid'' @ [CHR 0x0A] @ ''A-1{start} --> B[ go <b> ]'' @ [CHR 0x0A] @
     ''A-1{start} --> B[ go <b> ]'' @ [CHR 0x0A] @ ''```  ''"

definition long_line :: string where
  "long_line = replicate 4990 (CHR ''a'')"

lemma trim_replicate_a: "trim (replicate n (CHR ''a'')) = replicate n (CHR ''a'')"
  by (cases n) (simp_all add: trim_def is_ws_def replicate_append_same [symmetric] del: replicate_Suc)

lemma find_fence_replicate_a: "find_match (lit ''```'') (replicate n (CHR ''a'')) = None"
  by (induction n) (auto simp: lit_def)

lemma extract_code_replicate_a: "extract_code (replicate n (CHR ''a'')) = replicate n (CHR ''a'')"
  by (simp add: extract_code_def find_fence_replicate_a trim_replicate_a)

lemma braces_replicate_a: "braces_to_brackets (replicate n (CHR ''a'')) = replicate n (CHR ''a'')"
  by (induction n) auto

lemma quote_labels_replicate_a: "quote_labels (replicate n (CHR ''a'')) = replicate n (CHR ''a'')"
  by (induction n) (auto simp: Let_def)

lemma sanitize_replicate_a: "sanitize_ids b (replicate n (CHR ''a'')) = replicate n (CHR ''a'')"
proof (induction n arbitrary: b)
  case 0
  then show ?case by simp
next
  case (Suc n)
  have "is_id_char (CHR ''a'')" by (simp add: is_id_char_def is_ws_def)
  then have "dropWhile is_id_char (CHR ''a'' # replicate n (CHR ''a'')) = []"
    by (induction n) auto
  then show ?case using Suc by (simp add: Let_def is_line_terminator_def)
qed

lemma escape_labels_replicate_a: "escape_labels (replicate n (CHR ''a'')) = replicate n (CHR ''a'')"
  by (induction n) (auto simp: Let_def)

lemma valid_start_replicate_a: "\<not> has_valid_start b (replicate n (CHR ''a''))"
  by (induction n arbitrary: b) (auto simp: diagram_types_def)

lemma split_on_replicate_a: "split_on (CHR 0x0A) (replicate n (CHR ''a'')) = [replicate n (CHR ''a'')]"
  by (induction n) auto

lemma normalized_long_line:
  "normalized_code long_line = ''flowchart TD'' @ [CHR 0x0A] @ long_line"
proof -
  have t: "trim ''flowchart TD'' = ''flowchart TD''" by code_simp
  have d: "long_line \<noteq> ''flowchart TD''"
  proof
    assume "long_line = ''flowchart TD''"
    then have "length long_line = length ''flowchart TD''" by simp
    then show False by (simp add: long_line_def)
  qed
  have s: "split_on (CHR 0x0A) (''flowchart TD'' @ [CHR 0x0A] @ long_line) = [''flowchart TD'', long_line]"
    by (simp add: long_line_def split_on_replicate_a)
  have "dedup_lines [] [''flowchart TD'', long_line] = [''flowchart TD'', long_line]"
    using d by (simp add: t Let_def long_line_def trim_replicate_a)
  then show ?thesis
    unfolding normalized_code_def
    by (simp add: Let_def long_line_def extract_code_replicate_a braces_replicate_a
        quote_labels_replicate_a sanitize_replicate_a escape_labels_replicate_a
        valid_start_replicate_a split_on_replicate_a)
qed


lemma normalized_code_length:
  "length (normalized_code input)
     \<le> length input + 2 * count_chars ''[{'' input + 4 * count_chars ''&<>'' input + 13"
proof -
  define c1 where "c1 = extract_code input"
  define c2 where "c2 = braces_to_brackets c1"
  define c3 where "c3 = quote_labels c2"
  define c4 where "c4 = sanitize_ids True c3"
  define c5 where "c5 = escape_labels c4"
  define c6 where "c6 = (if \<not> has_valid_start True c5 then ''flowchart TD'' @ [CHR 0x0A] @ c5 else c5)"
  have n: "normalized_code input = join [CHR 0x0A] (dedup_lines [] (split_on (CHR 0x0A) c6))"
    by (simp add: normalized_code_def Let_def c1_def c2_def c3_def c4_def c5_def c6_def)
  have l1: "length c1 \<le> length input"
    using filter_extract_code [of "\<lambda>c. True" input] by (simp add: c1_def)
  have b1: "count_chars ''[{'' c1 \<le> count_chars ''[{'' input"
    unfolding count_chars_def c1_def by (rule filter_extract_code)
  have s1: "count_chars ''&<>'' c1 \<le> count_chars ''&<>'' input"
    unfolding count_chars_def c1_def by (rule filter_extract_code)
  have l2: "length c2 \<le> length c1"
    unfolding c2_def by (rule length_braces)
  have b2: "length (filter (\<lambda>c. c = CHR ''['') c2) \<le> count_chars ''[{'' c1"
    unfolding count_chars_def c2_def by (rule filter_braces) simp_all
  have s2: "count_chars ''&<>'' c2 \<le> count_chars ''&<>'' c1"
    unfolding count_chars_def c2_def by (rule filter_braces) simp_all
  have l3: "length c3 \<le> length c2 + 2 * length (filter (\<lambda>c. c = CHR ''['') c2)"
    unfolding c3_def by (rule length_quote_labels)
  have s3: "count_chars ''&<>'' c3 \<le> count_chars ''&<>'' c2"
    unfolding count_chars_def c3_def by (rule filter_quote_labels) simp
  have l4: "length c4 \<le> length c3"
    unfolding c4_def by (rule length_sanitize_ids)
  have s4: "count_chars ''&<>'' c4 \<le> count_chars ''&<>'' c3"
    unfolding count_chars_def c4_def
    by (rule filter_sanitize_ids) (auto simp: safe_id_char_def split: if_splits)
  have l5: "length c5 \<le> length c4 + 4 * count_chars ''&<>'' c4"
    unfolding c5_def by (rule length_escape_labels)
  have l6: "length c6 \<le> length c5 + 13"
    by (simp add: c6_def)
  have "length (normalized_code input) \<le> length c6"
    unfolding n using filter_dedup [of "\<lambda>c. True" "CHR 0x0A" "[]" c6] by simp
  with l1 b1 s1 l2 b2 s2 l3 s3 l4 s4 l5 l6 show ?thesis by linarith
qed

lemma normalized_code_lines:
  "length (split_on (CHR 0x0A) (normalized_code input)) \<le> length (split_on (CHR 0x0A) input) + 1"
proof -
  define P where "P = (\<lambda>c. c = CHR 0x0A)"
  define c1 where "c1 = extract_code input"
  define c2 where "c2 = braces_to_brackets c1"
  define c3 where "c3 = quote_labels c2"
  define c4 where "c4 = sanitize_ids True c3"
  define c5 where "c5 = escape_labels c4"
  define c6 where "c6 = (if \<not> has_valid_start True c5 then ''flowchart TD'' @ [CHR 0x0A] @ c5 else c5)"
  have n: "normalized_code input = join [CHR 0x0A] (dedup_lines [] (split_on (CHR 0x0A) c6))"
    by (simp add: normalized_code_def Let_def c1_def c2_def c3_def c4_def c5_def c6_def)
  have l1: "length (filter P c1) \<le> length (filter P input)"
    unfolding c1_def by (rule filter_extract_code)
  have l2: "length (filter P c2) \<le> length (filter P c1)"
    unfolding c2_def by (rule filter_braces) (simp_all add: P_def)
  have l3: "length (filter P c3) \<le> length (filter P c2)"
    unfolding c3_def by (rule filter_quote_labels) (simp add: P_def)
  have l4: "length (filter P c4) \<le> length (filter P c3)"
    unfolding c4_def
    by (rule filter_sanitize_ids) (auto simp: P_def safe_id_char_def split: if_splits)
  have l5: "length (filter P c5) \<le> length (filter P c4)"
    unfolding c5_def by (rule filter_escape_labels) (simp_all add: P_def)
  have l6: "length (filter P c6) \<le> length (filter P c5) + 1"
    by (simp add: c6_def P_def)
  have l7: "length (filter P (normalized_code input)) \<le> length (filter P c6)"
    unfolding n by (rule filter_dedup)
  from l1 l2 l3 l4 l5 l6 l7 show ?thesis
    unfolding length_split_on P_def by linarith
qed

lemma trim_within_caps:
  "length (trim s) \<le> length s \<and>
   length (split_on (CHR 0x0A) (trim s)) \<le> length (split_on (CHR 0x0A) s)"
  using length_trim [of s] filter_trim [of "\<lambda>c. c = CHR 0x0A" s]
  by (simp add: length_split_on)

text \<open>
  C9, as stated: the normalizer raises only when a cap is exceeded, and every input
  within the caps returns normally. The caps are applied to the code after the
  normalization steps, which may have added the header line: an input of 4990 letters
  on one line is within both caps and raises.
\<close>

theorem input_within_caps_raises:
  "length long_line \<le> MAX_CHARS \<and>
   length (split_on (CHR 0x0A) long_line) \<le> MAX_LINES \<and>
   processMermaidCode long_line = Inl ''Mermaid diagram too large or complex.''"
proof -
  have "split_on (CHR 0x0A) long_line = [long_line]"
    unfolding long_line_def by (rule split_on_replicate_a)
  moreover have "processMermaidCode long_line = Inl ''Mermaid diagram too large or complex.''"
    unfolding processMermaidCode_def normalized_long_line
    by (simp add: Let_def MAX_CHARS_def long_line_def)
  ultimately show ?thesis by (simp add: long_line_def MAX_CHARS_def MAX_LINES_def)
qed

text \<open>
  C9, amended: processMermaidCode raises exactly when the normalized code (the value of
  \<open>code\<close> after the seven normalization steps, header line included, not yet trimmed) has
  more than \<open>MAX_LINES = 200\<close> lines or more than \<open>MAX_CHARS = 5000\<close> characters, and
  then with the one fixed message; otherwise it returns the trimmed normalized code,
  never a substitute, and what it returns is within both caps. The normalized code has
  at most one line more than the input, and at most 13 characters more than the input
  plus 2 for each \<open>[\<close> or \<open>{\<close> and 4 for each \<open>&\<close>, \<open><\<close> or \<open>>\<close> of the input; so an input that
  stays within the caps with these allowances returns normally.
\<close>

theorem normalizer_raises_iff_normalized_code_exceeds_caps:
  "((\<exists>message. processMermaidCode input = Inl message) =
      (MAX_LINES < length (split_on (CHR 0x0A) (normalized_code input)) \<or>
       MAX_CHARS < length (normalized_code input))) \<and>
   (\<forall>message. processMermaidCode input = Inl message \<longrightarrow>
      message = ''Mermaid diagram too large or complex.'') \<and>
   (\<forall>out. processMermaidCode input = Inr out \<longrightarrow>
      out = trim (normalized_code input) \<and> length out \<le> MAX_CHARS \<and>
      length (split_on (CHR 0x0A) out) \<le> MAX_LINES) \<and>
   length (normalized_code input)
     \<le> length input + 2 * count_chars ''[{'' input + 4 * count_chars ''&<>'' input + 13 \<and>
   length (split_on (CHR 0x0A) (normalized_code input))
     \<le> length (split_on (CHR 0x0A) input) + 1 \<and>
   (length input + 2 * count_chars ''[{'' input + 4 * count_chars ''&<>'' input + 13 \<le> MAX_CHARS \<and>
    length (split_on (CHR 0x0A) input) < MAX_LINES \<longrightarrow>
      (\<exists>out. processMermaidCode input = Inr out))"
proof -
  define code where "code = normalized_code input"
  have p: "processMermaidCode input =
             (if MAX_LINES < length (split_on (CHR 0x0A) code) \<or> MAX_CHARS < length code
              then Inl ''Mermaid diagram too large or complex.'' else Inr (trim code))"
    by (simp add: processMermaidCode_def Let_def code_def)
  have a: "(\<exists>message. processMermaidCode input = Inl message) =
             (MAX_LINES < length (split_on (CHR 0x0A) code) \<or> MAX_CHARS < length code)"
    unfolding p by simp
  have b: "\<forall>message. processMermaidCode input = Inl message \<longrightarrow>
             message = ''Mermaid diagram too large or complex.''"
    unfolding p by simp
  have c: "\<forall>out. processMermaidCode input = Inr out \<longrightarrow>
             out = trim code \<and> length out \<le> MAX_CHARS \<and>
             length (split_on (CHR 0x0A) out) \<le> MAX_LINES"
    unfolding p using trim_within_caps [of code] by auto
  have d: "length code
             \<le> length input + 2 * count_chars ''[{'' input + 4 * count_chars ''&<>'' input + 13"
    unfolding code_def by (rule normalized_code_length)
  have e: "length (split_on (CHR 0x0A) code) \<le> length (split_on (CHR 0x0A) input) + 1"
    unfolding code_def by (rule normalized_code_lines)
  have f: "length input + 2 * count_chars ''[{'' input + 4 * count_chars ''&<>'' input + 13 \<le> MAX_CHARS \<and>
           length (split_on (CHR 0x0A) input) < MAX_LINES \<longrightarrow>
             (\<exists>out. processMermaidCode input = Inr out)"
    unfolding p using d e by auto
  from a b c d e f show ?thesis unfolding code_def by blast
qed

theorem normalizer_raises_iff_normalized_code_exceeds_caps_witness:
  "length fenced_sample + 2 * count_chars ''[{'' fenced_sample
     + 4 * count_chars ''&<>'' fenced_sample + 13 = 121 \<and>
   length (split_on (CHR 0x0A) fenced_sample) = 4 \<and>
   normalized_code fenced_sample =
     ''flowchart TD'' @ [CHR 0x0A] @ ''A_1['' @ [CHR 0x22] @ ''start'' @ [CHR 0x22] @
     ''] --> B['' @ [CHR 0x22] @ ''go &lt;b&gt;'' @ [CHR 0x22] @ '']'' \<and>
   (\<exists>out. processMermaidCode fenced_sample = Inr out) \<and>
   processMermaidCode fenced_sample = Inr (normalized_code fenced_sample) \<and>
   (\<exists>message. processMermaidCode long_line = Inl message) \<and>
   MAX_CHARS < length (normalized_code long_line)"
proof -
  have m: "length fenced_sample + 2 * count_chars ''[{'' fenced_sample
             + 4 * count_chars ''&<>'' fenced_sample + 13 = 121"
    unfolding fenced_sample_def by code_simp
  have l: "length (split_on (CHR 0x0A) fenced_sample) = 4"
    unfolding fenced_sample_def by code_simp
  have n: "normalized_code fenced_sample =
     ''flowchart TD'' @ [CHR 0x0A] @ ''A_1['' @ [CHR 0x22] @ ''start'' @ [CHR 0x22] @
     ''] --> B['' @ [CHR 0x22] @ ''go &lt;b&gt;'' @ [CHR 0x22] @ '']''"
    unfolding fenced_sample_def by code_simp
  have t: "trim (normalized_code fenced_sample) = normalized_code fenced_sample"
    unfolding n by code_simp
  note s = normalizer_raises_iff_normalized_code_exceeds_caps [of fenced_sample]
  from s m l have r: "\<exists>out. processMermaidCode fenced_sample = Inr out"
    by (simp add: MAX_CHARS_def MAX_LINES_def)
  with s t have v: "processMermaidCode fenced_sample = Inr (normalized_code fenced_sample)"
    by metis
  have x: "MAX_CHARS < length (normalized_code long_line)"
    unfolding normalized_long_line by (simp add: MAX_CHARS_def long_line_def)
  with normalizer_raises_iff_normalized_code_exceeds_caps [of long_line]
  have e: "\<exists>message. processMermaidCode long_line = Inl message" by blast
  from m l n r v e x show ?thesis by blast
qed

subsection \<open>Text Segmenter\<close>

text \<open>
  The claim's words, as definitions: a blob with \<open>N\<close> well-formed markers is a text
  \<open>t\<close> followed by \<open>N\<close> pairs of an equation and the text after it; an equation is
  well formed when it has no line terminator and does not contain the closing tag, and
  the texts do not contain the opening tag. \<open>expected_segments\<close> is the alternating
  sequence with the empty texts dropped and the equation contents trimmed.
\<close>

fun occurs :: "string \<Rightarrow> string \<Rightarrow> bool" where
  "occurs p [] = starts_with p []"
| "occurs p (c # cs) = (starts_with p (c # cs) \<or> occurs p cs)"







lemma not_occurs_suffix: "\<not> occurs p (c # cs) \<Longrightarrow> \<not> occurs p cs"
  by simp













subsection \<open>Diagram Preprocessor\<close>

text \<open>
  The class of inputs of the amended claim, as definitions: a flat line is a sequence of
  plain text and bracket groups of the four kinds, each group either unquoted (\<open>Raw\<close>)
  or already quoted (\<open>Quoted\<close>); plain text has no bracket, pipe, quote, backslash,
  \<open><\<close> or line feed. \<open>settle_item\<close> is what one pass makes of an item.
\<close>

datatype kind = Square | Paren | Curly | Pipe

fun opn :: "kind \<Rightarrow> char" where
  "opn Square = CHR ''[''" | "opn Paren = CHR ''(''" | "opn Curly = CHR ''{''" | "opn Pipe = CHR ''|''"

fun cls :: "kind \<Rightarrow> char" where
  "cls Square = CHR '']''" | "cls Paren = CHR '')''" | "cls Curly = CHR ''}''" | "cls Pipe = CHR ''|''"

datatype item = Gap string | Raw kind string | Quoted kind string

fun render_item :: "item \<Rightarrow> string" where
  "render_item (Gap u) = u"
| "render_item (Raw k c) = opn k # c @ [cls k]"
| "render_item (Quoted k e) = opn k # CHR 0x22 # e @ [CHR 0x22, cls k]"

definition render :: "item list \<Rightarrow> string" where
  "render items = concat (map render_item items)"

definition plain_char :: "char \<Rightarrow> bool" where
  "plain_char c = (c \<notin> set (''[](){}|<'' @ [CHR 0x22, CHR 0x27, CHR 0x5C, CHR 0x0A]))"

definition plain :: "string \<Rightarrow> bool" where
  "plain s = list_all plain_char s"

fun flat_item :: "item \<Rightarrow> bool" where
  "flat_item (Gap u) = plain u"
| "flat_item (Raw k c) = (c \<noteq> [] \<and> plain c)"
| "flat_item (Quoted k e) = plain e"

definition flat :: "item list \<Rightarrow> bool" where
  "flat items = list_all flat_item items"

fun step_item :: "kind \<Rightarrow> item \<Rightarrow> item" where
  "step_item k (Gap u) = Gap u"
| "step_item k (Raw k' c) =
     (if k = k' \<and> (k = Paren \<longrightarrow> is_simple_paren_content c) then Quoted k' (escapeContent c)
      else Raw k' c)"
| "step_item k (Quoted k' e) = Quoted k' e"

definition settle_item :: "item \<Rightarrow> item" where
  "settle_item it = step_item Pipe (step_item Curly (step_item Paren (step_item Square it)))"

definition callback :: "kind \<Rightarrow> string \<Rightarrow> string \<Rightarrow> string \<Rightarrow> nat \<Rightarrow> string" where
  "callback k processedLine match content offset =
     (if isInsideQuotes processedLine offset then match
      else if isAlreadyQuoted content then match
      else if k = Paren \<and> \<not> is_simple_paren_content content then match
      else opn k # CHR 0x22 # escapeContent content @ [CHR 0x22, cls k])"

definition quote_kind :: "kind \<Rightarrow> string \<Rightarrow> string" where
  "quote_kind k line = bracket_scan (opn k) (cls k) (callback k line) 0 line"

lemma callback_eqs:
  "callback Square line = (\<lambda>match content offset.
          if isInsideQuotes line offset then match
          else if isAlreadyQuoted content then match
          else ''['' @ [CHR 0x22] @ escapeContent content @ [CHR 0x22] @ '']'')"
  "callback Paren line = (\<lambda>match content offset.
          if isInsideQuotes line offset then match
          else if isAlreadyQuoted content then match
          else if is_simple_paren_content content
          then ''('' @ [CHR 0x22] @ escapeContent content @ [CHR 0x22] @ '')''
          else match)"
  "callback Curly line = (\<lambda>match content offset.
          if isInsideQuotes line offset then match
          else if isAlreadyQuoted content then match
          else ''{'' @ [CHR 0x22] @ escapeContent content @ [CHR 0x22] @ ''}'')"
  "callback Pipe line = (\<lambda>match content offset.
          if isInsideQuotes line offset then match
          else if isAlreadyQuoted content then match
          else ''|'' @ [CHR 0x22] @ escapeContent content @ [CHR 0x22] @ ''|'')"
  by (auto simp: callback_def fun_eq_iff)

lemma quote_kind_eqs:
  "quote_square line = quote_kind Square line"
  "quote_paren line = quote_kind Paren line"
  "quote_curly line = quote_kind Curly line"
  "quote_pipe line = quote_kind Pipe line"
  unfolding quote_square_def quote_paren_def quote_curly_def quote_pipe_def quote_kind_def
    callback_eqs by simp_all

lemma bracket_scan_skip:
  "opn' \<notin> set u \<Longrightarrow>
   bracket_scan opn' cls' cb off (u @ r) = u @ bracket_scan opn' cls' cb (off + length u) r"
proof (induction u arbitrary: off)
  case Nil
  then show ?case by simp
next
  case (Cons c u)
  then have "c \<noteq> opn'" by auto
  then show ?case using Cons by (simp add: bracket_scan.simps(2) Let_def)
qed

lemma bracket_scan_group:
  assumes "c \<noteq> []" and "cls' \<notin> set c"
  shows "bracket_scan opn' cls' cb off (opn' # c @ cls' # r) =
         cb (opn' # c @ [cls']) c off @ bracket_scan opn' cls' cb (off + length c + 2) r"
proof -
  have t: "takeWhile (\<lambda>x. x \<noteq> cls') (c @ cls' # r) = c"
    using assms(2) by (induction c) auto
  have d: "dropWhile (\<lambda>x. x \<noteq> cls') (c @ cls' # r) = cls' # r"
    using assms(2) by (induction c) auto
  show ?thesis
    using assms(1) by (simp add: bracket_scan.simps(2) t d Let_def)
qed


lemma set_trim: "set (trim s) \<subseteq> set s"
proof
  fix x assume "x \<in> set (trim s)"
  then have "x \<in> set (dropWhile is_ws (rev (dropWhile is_ws s)))" by (simp add: trim_def)
  then have "x \<in> set (rev (dropWhile is_ws s))" by (rule set_dropWhileD)
  then have "x \<in> set (dropWhile is_ws s)" by simp
  then show "x \<in> set s" by (rule set_dropWhileD)
qed

lemma set_replace_all: "set (replace_all p r s) \<subseteq> set r \<union> set s"
  by (induction p r s rule: replace_all.induct) (auto dest: in_set_dropD)

lemma plain_trim: "plain s \<Longrightarrow> plain (trim s)"
  using set_trim [of s] by (auto simp: plain_def list_all_iff)

lemma plain_replace_all: "plain r \<Longrightarrow> plain s \<Longrightarrow> plain (replace_all p r s)"
  using set_replace_all [of p r s] by (auto simp: plain_def list_all_iff)

lemma plain_escapeContent: "plain c \<Longrightarrow> plain (escapeContent c)"
  unfolding escapeContent_def
  by (intro plain_trim plain_replace_all) (simp_all add: plain_def plain_char_def)

lemma starts_with_hd: "starts_with [q] s \<Longrightarrow> q \<in> set s"
  by (cases s) auto

lemma plain_not_quoted: "plain c \<Longrightarrow> \<not> isAlreadyQuoted c"
proof -
  assume "plain c"
  then have p: "plain (trim c)" by (rule plain_trim)
  have "\<not> starts_with [q] (trim c)" if "q = CHR 0x22 \<or> q = CHR 0x27" for q
    using p that starts_with_hd [of q "trim c"] by (auto simp: plain_def plain_char_def list_all_iff)
  then show ?thesis by (auto simp: isAlreadyQuoted_def Let_def)
qed

lemma quoted_is_quoted: "isAlreadyQuoted (CHR 0x22 # e @ [CHR 0x22])"
proof -
  have "trim (CHR 0x22 # e @ [CHR 0x22]) = CHR 0x22 # e @ [CHR 0x22]"
    by (simp add: trim_def is_ws_def)
  then show ?thesis by (simp add: isAlreadyQuoted_def ends_with_def)
qed

definition last_prev :: "char option \<Rightarrow> string \<Rightarrow> char option" where
  "last_prev prev u = (if u = [] then prev else Some (last u))"

lemma quote_scan_plain:
  "plain u \<Longrightarrow> quote_scan prev q (u @ r) = quote_scan (last_prev prev u) q r"
proof (induction u arbitrary: prev)
  case Nil
  then show ?case by (simp add: last_prev_def)
next
  case (Cons c u)
  then have "c \<noteq> CHR 0x22" "c \<noteq> CHR 0x27" "plain u"
    by (auto simp: plain_def plain_char_def)
  then show ?case using Cons.IH [of "Some c"] by (simp add: last_prev_def)
qed

lemma last_prev_not_backslash:
  "plain u \<Longrightarrow> prev \<noteq> Some (CHR 0x5C) \<Longrightarrow> last_prev prev u \<noteq> Some (CHR 0x5C)"
  by (auto simp: last_prev_def plain_def plain_char_def list_all_iff dest: last_in_set)

lemma quote_scan_item:
  assumes "flat_item it"
  shows "\<exists>p'. \<forall>r. quote_scan p None (render_item it @ r) = quote_scan p' None r"
proof (cases it)
  case (Gap u)
  then show ?thesis using assms quote_scan_plain [of u p None] by auto
next
  case (Raw k c)
  then have "plain (opn k # c @ [cls k])" if "plain_char (opn k)" "plain_char (cls k)"
    using assms that by (simp add: plain_def)
  have o: "opn k \<noteq> CHR 0x22" "opn k \<noteq> CHR 0x27" "cls k \<noteq> CHR 0x22" "cls k \<noteq> CHR 0x27"
    by (cases k; simp)+
  have "quote_scan p None (render_item it @ r) = quote_scan (Some (cls k)) None r" for r
    using Raw assms o quote_scan_plain [of c "Some (opn k)" None "cls k # r"] by simp
  then show ?thesis by blast
next
  case (Quoted k e)
  have o: "opn k \<noteq> CHR 0x22" "opn k \<noteq> CHR 0x27" "cls k \<noteq> CHR 0x22" "cls k \<noteq> CHR 0x27"
    "opn k \<noteq> CHR 0x5C"
    by (cases k; simp)+
  have pe: "plain e" using Quoted assms by simp
  have nb: "last_prev (Some (CHR 0x22)) e \<noteq> Some (CHR 0x5C)"
    using last_prev_not_backslash [OF pe] by simp
  have "quote_scan p None (render_item it @ r) = quote_scan (Some (cls k)) None r" for r
    using Quoted o nb quote_scan_plain [OF pe, of "Some (CHR 0x22)" "Some (CHR 0x22)" "CHR 0x22 # cls k # r"]
    by simp
  then show ?thesis by blast
qed

lemma quote_scan_items:
  "flat items \<Longrightarrow> \<exists>p'. \<forall>r. quote_scan p None (render items @ r) = quote_scan p' None r"
proof (induction items arbitrary: p)
  case Nil
  then show ?case by (auto simp: render_def)
next
  case (Cons it items)
  then have f: "flat_item it" "flat items" by (simp_all add: flat_def)
  from quote_scan_item [OF f(1), of p] obtain p1 where
    1: "\<And>r. quote_scan p None (render_item it @ r) = quote_scan p1 None r" by blast
  from Cons.IH [OF f(2), of p1] obtain p2 where
    2: "\<And>r. quote_scan p1 None (render items @ r) = quote_scan p2 None r" by blast
  have "quote_scan p None (render (it # items) @ r) = quote_scan p2 None r" for r
    using 1 [of "render items @ r"] 2 [of r] by (simp add: render_def)
  then show ?case by blast
qed

lemma outside_quotes:
  assumes "flat done"
  shows "\<not> isInsideQuotes (render done @ r) (length (render done))"
proof -
  from quote_scan_items [OF assms, of None] obtain p' where
    "quote_scan None None (render done @ []) = quote_scan p' None []" by blast
  then show ?thesis by (simp add: isInsideQuotes_def)
qed


lemma other_kind: "k' \<noteq> k \<Longrightarrow> opn k \<noteq> opn k' \<and> opn k \<noteq> cls k'"
  by (cases k; cases k'; simp)

lemma plain_no_bracket: "plain s \<Longrightarrow> opn k \<notin> set s \<and> cls k \<notin> set s"
  by (cases k) (auto simp: plain_def plain_char_def list_all_iff)

lemma plain_no_quote: "plain s \<Longrightarrow> CHR 0x22 \<notin> set s"
  by (auto simp: plain_def plain_char_def list_all_iff)

lemma render_append: "render (xs @ ys) = render xs @ render ys"
  by (simp add: render_def)

lemma render_Cons: "render (x # xs) = render_item x @ render xs"
  by (simp add: render_def)

lemma scan_items:
  assumes "flat (done @ todo)"
  shows "bracket_scan (opn k) (cls k) (callback k (render (done @ todo)))
           (length (render done)) (render todo) = render (map (step_item k) todo)"
  using assms
proof (induction todo arbitrary: "done")
  case Nil
  then show ?case by (simp add: render_def bracket_scan.simps(1))
next
  case (Cons it todo)
  define line where "line = render (done @ it # todo)"
  have fd: "flat done" and fi: "flat_item it" and fa: "flat ((done @ [it]) @ todo)"
    using Cons.prems by (simp_all add: flat_def)
  have ih: "bracket_scan (opn k) (cls k) (callback k line)
              (length (render done) + length (render_item it)) (render todo) =
            render (map (step_item k) todo)"
    using Cons.IH [OF fa] by (simp add: line_def render_append render_Cons render_def)
  have out: "\<not> isInsideQuotes line (length (render done))"
    unfolding line_def render_append by (rule outside_quotes [OF fd])
  have skip: "bracket_scan (opn k) (cls k) (callback k line) (length (render done))
                (render (it # todo)) = render_item it @ render (map (step_item k) todo)"
    if "opn k \<notin> set (render_item it)"
    using bracket_scan_skip [OF that, of "cls k" "callback k line" "length (render done)" "render todo"] ih
    by (simp add: render_Cons)
  have "bracket_scan (opn k) (cls k) (callback k line) (length (render done))
          (render (it # todo)) = render_item (step_item k it) @ render (map (step_item k) todo)"
  proof (cases it)
    case (Gap u)
    then show ?thesis using skip fi plain_no_bracket [of u k] by simp
  next
    case (Raw k' c)
    then have c: "c \<noteq> []" "plain c" using fi by simp_all
    show ?thesis
    proof (cases "k' = k")
      case False
      then show ?thesis
        using skip Raw other_kind [of k' k] plain_no_bracket [OF c(2), of k] by simp
    next
      case True
      have "bracket_scan (opn k) (cls k) (callback k line) (length (render done))
              (opn k # c @ cls k # render todo) =
            callback k line (opn k # c @ [cls k]) c (length (render done)) @
            bracket_scan (opn k) (cls k) (callback k line) (length (render done) + length c + 2)
              (render todo)"
        using plain_no_bracket [OF c(2), of k] by (intro bracket_scan_group c(1)) simp
      moreover have "callback k line (opn k # c @ [cls k]) c (length (render done)) =
                     render_item (step_item k (Raw k c))"
        using out plain_not_quoted [OF c(2)] by (auto simp: callback_def)
      ultimately show ?thesis using ih Raw True by (simp add: render_Cons add.assoc)
    qed
  next
    case (Quoted k' e)
    then have e: "plain e" using fi by simp
    have q: "opn k \<noteq> CHR 0x22" "cls k \<noteq> CHR 0x22" by (cases k; simp)+
    show ?thesis
    proof (cases "k' = k")
      case False
      then show ?thesis
        using skip Quoted q other_kind [of k' k] plain_no_bracket [OF e, of k] by simp
    next
      case True
      define c where "c = CHR 0x22 # e @ [CHR 0x22]"
      have "bracket_scan (opn k) (cls k) (callback k line) (length (render done))
              (opn k # c @ cls k # render todo) =
            callback k line (opn k # c @ [cls k]) c (length (render done)) @
            bracket_scan (opn k) (cls k) (callback k line) (length (render done) + length c + 2)
              (render todo)"
        using plain_no_bracket [OF e, of k] q by (intro bracket_scan_group) (simp_all add: c_def)
      moreover have "callback k line (opn k # c @ [cls k]) c (length (render done)) =
                     opn k # c @ [cls k]"
        using quoted_is_quoted [of e] by (simp add: callback_def c_def)
      ultimately show ?thesis using ih Quoted True by (simp add: render_Cons c_def add.assoc)
    qed
  qed
  then show ?case by (simp add: line_def render_Cons)
qed

lemma quote_kind_items:
  "flat items \<Longrightarrow> quote_kind k (render items) = render (map (step_item k) items)"
  using scan_items [of "[]" items k] by (simp add: quote_kind_def render_def)

lemma flat_step_item: "flat_item it \<Longrightarrow> flat_item (step_item k it)"
  by (cases it) (auto simp: plain_escapeContent)

lemma flat_step: "flat items \<Longrightarrow> flat (map (step_item k) items)"
  by (simp add: flat_def list_all_iff flat_step_item)

lemma process_line_items:
  assumes "flat items"
  shows "process_line (render items) = render (map settle_item items)"
proof -
  have 1: "quote_square (render items) = render (map (step_item Square) items)"
    using assms by (simp add: quote_kind_eqs quote_kind_items)
  have 2: "quote_paren (render (map (step_item Square) items)) =
           render (map (step_item Paren) (map (step_item Square) items))"
    using assms by (simp add: quote_kind_eqs quote_kind_items flat_step del: map_map)
  have 3: "quote_curly (render (map (step_item Paren) (map (step_item Square) items))) =
           render (map (step_item Curly) (map (step_item Paren) (map (step_item Square) items)))"
    using assms by (simp add: quote_kind_eqs quote_kind_items flat_step del: map_map)
  have 4: "quote_pipe (render (map (step_item Curly) (map (step_item Paren) (map (step_item Square) items)))) =
           render (map (step_item Pipe) (map (step_item Curly) (map (step_item Paren) (map (step_item Square) items))))"
    using assms by (simp add: quote_kind_eqs quote_kind_items flat_step del: map_map)
  show ?thesis
    unfolding process_line_def 1 2 3 4 by (simp add: settle_item_def [abs_def] comp_def)
qed

lemma settle_item_flat: "flat_item it \<Longrightarrow> flat_item (settle_item it)"
  by (simp add: settle_item_def flat_step_item)

lemma settle_item_idem: "settle_item (settle_item it) = settle_item it"
  by (cases it) (auto simp: settle_item_def)

lemma process_line_idem:
  assumes "flat items"
  shows "process_line (process_line (render items)) = process_line (render items)"
proof -
  have "flat (map settle_item items)"
    using assms by (simp add: flat_def list_all_iff settle_item_flat)
  then show ?thesis
    using assms by (simp add: process_line_items settle_item_idem comp_def)
qed


definition nl :: string where "nl = [CHR 0x0A]"

lemma to_lower_lt: "to_lower c = CHR ''<'' \<Longrightarrow> c = CHR ''<''"
proof -
  assume a: "to_lower c = CHR ''<''"
  show ?thesis
  proof (cases "map_of (zip ''ABCDEFGHIJKLMNOPQRSTUVWXYZ'' ''abcdefghijklmnopqrstuvwxyz'') c")
    case None
    with a show ?thesis by (simp add: to_lower_def)
  next
    case (Some l)
    then have "l \<in> set ''abcdefghijklmnopqrstuvwxyz''"
      by (meson map_of_SomeD set_zip_rightD)
    moreover have "l = CHR ''<''" using a Some by (simp add: to_lower_def)
    ultimately show ?thesis by simp
  qed
qed

lemma br_tag_none: "CHR ''<'' \<notin> set s \<Longrightarrow> br_tag s = None"
proof (cases s)
  case Nil
  then show ?thesis by (simp add: br_tag_def starts_with_ci_def)
next
  case (Cons a list)
  assume "CHR ''<'' \<notin> set s"
  then have "a \<noteq> CHR ''<''" using Cons by auto
  then have "to_lower a \<noteq> CHR ''<''" using to_lower_lt by blast
  then have "\<not> starts_with_ci ''<br'' s" using Cons by (auto simp: starts_with_ci_def)
  then show ?thesis by (simp add: br_tag_def)
qed

lemma find_br_none: "CHR ''<'' \<notin> set s \<Longrightarrow> find_match br_tag s = None"
  by (induction s) (auto simp: br_tag_none)

lemma replace_br_id: "CHR ''<'' \<notin> set s \<Longrightarrow> replace_br s = s"
  by (simp add: replace_br.simps [of s] find_br_none)

lemma split_on_single: "d \<notin> set l \<Longrightarrow> split_on d l = [l]"
  by (induction l) auto

lemma split_on_append: "d \<notin> set l \<Longrightarrow> split_on d (l @ d # r) = l # split_on d r"
  by (induction l) auto

lemma split_join:
  "ls \<noteq> [] \<Longrightarrow> \<forall>l\<in>set ls. d \<notin> set l \<Longrightarrow> split_on d (join [d] ls) = ls"
proof (induction "[d]" ls rule: join.induct)
  case 1
  then show ?case by simp
next
  case (2 x)
  then show ?case by (simp add: split_on_single)
next
  case (3 x y ys)
  then show ?case by (simp add: split_on_append)
qed

lemma set_join: "set (join sep ls) \<subseteq> set sep \<union> \<Union> (set ` set ls)"
  by (induction sep ls rule: join.induct) auto

lemma flat_item_chars:
  "flat_item it \<Longrightarrow> CHR ''<'' \<notin> set (render_item it) \<and> CHR 0x0A \<notin> set (render_item it)"
proof (cases it)
  case (Gap u)
  assume "flat_item it"
  with Gap show ?thesis by (auto simp: plain_def plain_char_def list_all_iff)
next
  case (Raw k c)
  assume "flat_item it"
  with Raw show ?thesis by (cases k) (auto simp: plain_def plain_char_def list_all_iff)
next
  case (Quoted k e)
  assume "flat_item it"
  with Quoted show ?thesis by (cases k) (auto simp: plain_def plain_char_def list_all_iff)
qed

lemma flat_chars:
  "flat items \<Longrightarrow> CHR ''<'' \<notin> set (render items) \<and> CHR 0x0A \<notin> set (render items)"
  using flat_item_chars by (fastforce simp: flat_def render_def list_all_iff)

lemma preprocess_flat:
  assumes "ls \<noteq> []" and "list_all flat ls"
  shows "preprocessMermaidCode (join nl (map render ls)) =
         join nl (map render (map (map settle_item) ls))"
proof -
  have c: "\<forall>l\<in>set (map render ls). CHR ''<'' \<notin> set l \<and> CHR 0x0A \<notin> set l"
    using assms(2) flat_chars by (auto simp: list_all_iff)
  then have "CHR ''<'' \<notin> set (join nl (map render ls))"
    using set_join [of nl "map render ls"] by (auto simp: nl_def)
  then have r: "replace_br (join nl (map render ls)) = join nl (map render ls)"
    by (rule replace_br_id)
  have s: "split_on (CHR 0x0A) (join nl (map render ls)) = map render ls"
    unfolding nl_def using assms(1) c by (intro split_join) auto
  have "map process_line (map render ls) = map render (map (map settle_item) ls)"
    using assms(2) by (simp add: list_all_iff process_line_items)
  then show ?thesis
    unfolding preprocessMermaidCode_def r s by (simp only: nl_def)
qed

lemma preprocess_flat_idem:
  assumes "ls \<noteq> []" and "list_all flat ls"
  shows "preprocessMermaidCode (preprocessMermaidCode (join nl (map render ls))) =
         preprocessMermaidCode (join nl (map render ls))"
proof -
  have f: "list_all flat (map (map settle_item) ls)"
    using assms(2) by (simp add: list_all_iff flat_def settle_item_flat)
  have n: "map (map settle_item) ls \<noteq> []" using assms(1) by simp
  show ?thesis
    unfolding preprocess_flat [OF assms] preprocess_flat [OF n f]
    by (simp add: settle_item_idem comp_def)
qed

text \<open>
  Where the lines are flat, that is, plain text and bracket groups (square, parenthesis,
  brace, edge label; already quoted or not) whose contents and surrounding text have no
  bracket, pipe, quote, backslash or \<open><\<close> character, one pass quotes each unquoted group
  once (a parenthesis only when its content is simple), and a second pass changes
  nothing.
\<close>

lemma preprocess_idempotent_on_flat_lines:
  assumes "ls \<noteq> []" and "list_all flat ls"
  shows "preprocessMermaidCode (preprocessMermaidCode (join nl (map render ls))) =
           preprocessMermaidCode (join nl (map render ls)) \<and>
         preprocessMermaidCode (join nl (map render ls)) =
           join nl (map render (map (map settle_item) ls))"
  using preprocess_flat_idem [OF assms] preprocess_flat [OF assms] by simp

definition flat_sample :: "item list list" where
  "flat_sample =
     [[Gap ''graph TD''],
      [Gap ''A'', Raw Square ''Start'', Gap '' --> B'', Raw Curly ''Is it > 1 & ok?'',
       Gap '' -->'', Raw Pipe ''yes'', Gap '' C'', Raw Paren ''go on'', Gap '' --> D'',
       Quoted Square ''done'']]"

lemma flat_sample_idempotent:
  "flat_sample \<noteq> [] \<and> list_all flat flat_sample \<and>
   join nl (map render flat_sample) =
     ''graph TD'' @ [CHR 0x0A] @
     ''A[Start] --> B{Is it > 1 & ok?} -->|yes| C(go on) --> D['' @ [CHR 0x22] @ ''done'' @
     [CHR 0x22] @ '']'' \<and>
   preprocessMermaidCode (preprocessMermaidCode (join nl (map render flat_sample))) =
     preprocessMermaidCode (join nl (map render flat_sample))"
proof -
  have n: "flat_sample \<noteq> []" by (simp add: flat_sample_def)
  have f: "list_all flat flat_sample"
    unfolding flat_sample_def by code_simp
  have j: "join nl (map render flat_sample) =
     ''graph TD'' @ [CHR 0x0A] @
     ''A[Start] --> B{Is it > 1 & ok?} -->|yes| C(go on) --> D['' @ [CHR 0x22] @ ''done'' @
     [CHR 0x22] @ '']''"
    unfolding flat_sample_def by code_simp
  from preprocess_idempotent_on_flat_lines [OF n f] have
    "preprocessMermaidCode (preprocessMermaidCode (join nl (map render flat_sample))) =
     preprocessMermaidCode (join nl (map render flat_sample))"
    by (rule conjunct1)
  with n f j show ?thesis by blast
qed

definition apostrophe_sample :: string where
  "apostrophe_sample = ''[a'' @ [CHR 0x27] @ ''b] [c]''"

definition possessive_sample :: string where
  "possessive_sample = ''A[Newton'' @ [CHR 0x27] @ ''s law] --> B[F = ma]''"

text \<open>
  C5, at a failing input: preprocessMermaidCode applied to its own output is to give
  that output. On \<open>[a'b] [c]\<close> the apostrophe inside the first label makes isInsideQuotes
  report the second label as lying inside a quoted string, so the first pass quotes
  the first label only and leaves \<open>[c]\<close> as it is; the second pass, the apostrophe now
  escaped as \<open>&#39;\<close>, quotes \<open>[c]\<close> as well. The same happens to the label of \<open>B\<close> in
  \<open>A[Newton's law] --> B[F = ma]\<close>.
\<close>

theorem apostrophe_label_second_pass_differs:
  "preprocessMermaidCode apostrophe_sample =
     ''['' @ [CHR 0x22] @ ''a&#39;b'' @ [CHR 0x22] @ ''] [c]'' \<and>
   preprocessMermaidCode (preprocessMermaidCode apostrophe_sample) =
     ''['' @ [CHR 0x22] @ ''a&#39;b'' @ [CHR 0x22] @ ''] ['' @ [CHR 0x22] @ ''c'' @ [CHR 0x22] @ '']'' \<and>
   preprocessMermaidCode (preprocessMermaidCode apostrophe_sample) \<noteq>
     preprocessMermaidCode apostrophe_sample \<and>
   preprocessMermaidCode possessive_sample =
     ''A['' @ [CHR 0x22] @ ''Newton&#39;s law'' @ [CHR 0x22] @ ''] --> B[F = ma]'' \<and>
   preprocessMermaidCode (preprocessMermaidCode possessive_sample) =
     ''A['' @ [CHR 0x22] @ ''Newton&#39;s law'' @ [CHR 0x22] @ ''] --> B['' @ [CHR 0x22] @
     ''F = ma'' @ [CHR 0x22] @ '']'' \<and>
   preprocessMermaidCode (preprocessMermaidCode possessive_sample) \<noteq>
     preprocessMermaidCode possessive_sample"
proof -
  have a: "preprocessMermaidCode apostrophe_sample =
     ''['' @ [CHR 0x22] @ ''a&#39;b'' @ [CHR 0x22] @ ''] [c]''"
    unfolding apostrophe_sample_def by code_simp
  have b: "preprocessMermaidCode (''['' @ [CHR 0x22] @ ''a&#39;b'' @ [CHR 0x22] @ ''] [c]'') =
     ''['' @ [CHR 0x22] @ ''a&#39;b'' @ [CHR 0x22] @ ''] ['' @ [CHR 0x22] @ ''c'' @ [CHR 0x22] @ '']''"
    by code_simp
  have c: "preprocessMermaidCode possessive_sample =
     ''A['' @ [CHR 0x22] @ ''Newton&#39;s law'' @ [CHR 0x22] @ ''] --> B[F = ma]''"
    unfolding possessive_sample_def by code_simp
  have d: "preprocessMermaidCode
             (''A['' @ [CHR 0x22] @ ''Newton&#39;s law'' @ [CHR 0x22] @ ''] --> B[F = ma]'') =
     ''A['' @ [CHR 0x22] @ ''Newton&#39;s law'' @ [CHR 0x22] @ ''] --> B['' @ [CHR 0x22] @
     ''F = ma'' @ [CHR 0x22] @ '']''"
    by code_simp
  show ?thesis unfolding a b c d by simp
qed

end
